theory Spec2Isabelle
  imports Complex_Main "HOL-Library.Sublist"
begin

section \<open>Python strings\<close>

text \<open>
  A Python \<open>str\<close> is a sequence of Unicode code points. A code point is a natural
  number, so \<open>len\<close> counts code points as Python does.
\<close>

type_synonym pychar = nat
type_synonym pystr = "pychar list"

text \<open>
  \<open>str.isspace\<close>, \<open>str.split()\<close>, \<open>str.strip()\<close> and the pattern \<open>\s\<close> of module
  \<open>re\<close> all use the same table of Unicode whitespace.
\<close>

definition is_space :: "pychar \<Rightarrow> bool" where
  "is_space c = (c \<in> set [9, 10, 11, 12, 13, 28, 29, 30, 31, 32, 133, 160, 5760,
      8192, 8193, 8194, 8195, 8196, 8197, 8198, 8199, 8200, 8201, 8202,
      8232, 8233, 8239, 8287, 12288])"

abbreviation SP :: pychar where
  "SP \<equiv> 32"

text \<open>
  The pattern \<open>\w\<close>: the underscore and every alphanumeric code point. Below 128 these
  are the ASCII letters and digits; above, the interpreter's Unicode database decides,
  which is the parameter \<open>ua\<close>.
\<close>

definition is_word_char :: "(pychar \<Rightarrow> bool) \<Rightarrow> pychar \<Rightarrow> bool" where
  "is_word_char ua c =
     (c = 95 \<or>
      (if c < 128 then (48 \<le> c \<and> c \<le> 57) \<or> (65 \<le> c \<and> c \<le> 90) \<or> (97 \<le> c \<and> c \<le> 122)
       else ua c))"

text \<open>The punctuation of the character class: \<open>. , ! ? ; : - ( ) [ ] { }\<close>.\<close>

definition is_basic_punct :: "pychar \<Rightarrow> bool" where
  "is_basic_punct c = (c \<in> set [46, 44, 33, 63, 59, 58, 45, 40, 41, 91, 93, 123, 125])"

text \<open>\<open>text.split()\<close>: the maximal runs of non-whitespace, in order.\<close>

fun split_aux :: "pystr \<Rightarrow> pystr \<Rightarrow> pystr list" where
  "split_aux cur [] = (if cur = [] then [] else [cur])"
| "split_aux cur (c # cs) =
     (if is_space c then (if cur = [] then split_aux [] cs else cur # split_aux [] cs)
      else split_aux (cur @ [c]) cs)"

definition split :: "pystr \<Rightarrow> pystr list" where
  "split t = split_aux [] t"

text \<open>\<open>' '.join(words)\<close>.\<close>

fun join :: "pystr list \<Rightarrow> pystr" where
  "join [] = []"
| "join [w] = w"
| "join (w # v # ws) = w @ SP # join (v # ws)"

text \<open>\<open>text.strip()\<close>.\<close>

definition strip :: "pystr \<Rightarrow> pystr" where
  "strip t = rev (dropWhile is_space (rev (dropWhile is_space t)))"

section \<open>Text cleaning\<close>

text \<open>\<open>re.sub(r'\s+', ' ', text)\<close>: every maximal run of whitespace becomes one space.\<close>

function re_sub_ws :: "pystr \<Rightarrow> pystr" where
  "re_sub_ws [] = []"
| "re_sub_ws (c # cs) =
     (if is_space c then SP # re_sub_ws (dropWhile is_space cs) else c # re_sub_ws cs)"
  by pat_completeness auto
termination
  by (relation "measure length") (auto simp: length_dropWhile_le le_imp_less_Suc)

text \<open>
  \<open>re.sub(r'[^\w\s\.\,\!\?\;\:\-\(\)\[\]\{\}]', '', text)\<close>: every code point outside
  the class is removed.
\<close>

definition kept :: "(pychar \<Rightarrow> bool) \<Rightarrow> pychar \<Rightarrow> bool" where
  "kept ua c = (is_word_char ua c \<or> is_space c \<or> is_basic_punct c)"

definition re_sub_special :: "(pychar \<Rightarrow> bool) \<Rightarrow> pystr \<Rightarrow> pystr" where
  "re_sub_special ua t = filter (kept ua) t"

text \<open>\<open>PDFProcessor._clean_text\<close> (src/pdf\_processor.py).\<close>

definition clean_text :: "(pychar \<Rightarrow> bool) \<Rightarrow> pystr \<Rightarrow> pystr" where
  "clean_text ua t = strip (join (split (re_sub_special ua (re_sub_ws t))))"

text \<open>
  \<open>PDFPageProcessor._clean_text\<close> (pdf\_page\_processor.py) and the archived
  processor return the empty string at once for an empty text.
\<close>

definition clean_text_page :: "(pychar \<Rightarrow> bool) \<Rightarrow> pystr \<Rightarrow> pystr" where
  "clean_text_page ua t = (if t = [] then [] else clean_text ua t)"

section \<open>Chunks and configuration\<close>

text \<open>
  The chunk dictionaries of the pipeline, as a record with one optional field per key:
  \<open>None\<close> is a missing key (the key \<open>text\<close> is the field \<open>text_val\<close>). Every field
  has the type the pipeline gives it (\<open>str\<close>, \<open>int\<close>, \<open>float\<close>, a list for the
  embedding), so \<open>str(v)\<close> and \<open>int(v)\<close> of \<open>insert_documents\<close> return what they are
  given. An element of an embedding is a number or something that fails
  \<open>isinstance(x, (int, float))\<close>.
\<close>

datatype elem = Num real | NonNum

type_synonym vec = "elem list"

record chunk =
  chunk_id :: "int option"
  text_val :: "pystr option"
  start_word :: "int option"
  end_word :: "int option"
  document_id :: "pystr option"
  page_number :: "int option"
  page_width :: "real option"
  page_height :: "real option"
  embedding :: "vec option"

text \<open>The chunking options of config.py, read by the constructor of \<open>PDFProcessor\<close>.\<close>

record config =
  chunk_size :: int
  chunk_overlap :: int

definition CHUNK_SIZE :: int where
  "CHUNK_SIZE = 1000"

definition CHUNK_OVERLAP :: int where
  "CHUNK_OVERLAP = 200"

definition MAX_TEXT_LENGTH :: nat where
  "MAX_TEXT_LENGTH = 8192"

definition shipped :: config where
  "shipped = \<lparr>chunk_size = CHUNK_SIZE, chunk_overlap = CHUNK_OVERLAP\<rparr>"

section \<open>Chunking\<close>

text \<open>
  \<open>xs[i:j]\<close> with Python's rules: a negative index counts from the end, and both
  indices are clipped to the list.
\<close>

definition clip_index :: "'a list \<Rightarrow> int \<Rightarrow> nat" where
  "clip_index xs i =
     (let n = int (length xs) in nat (if i < 0 then max (n + i) 0 else min i n))"

definition py_slice :: "'a list \<Rightarrow> int \<Rightarrow> int \<Rightarrow> 'a list" where
  "py_slice xs i j = take (clip_index xs j - clip_index xs i) (drop (clip_index xs i) xs)"

definition new_chunk :: "int \<Rightarrow> pystr \<Rightarrow> int \<Rightarrow> int \<Rightarrow> chunk" where
  "new_chunk cid t s e =
     \<lparr>chunk_id = Some cid, text_val = Some t, start_word = Some s, end_word = Some e,
      document_id = None, page_number = None, page_width = None, page_height = None,
      embedding = None\<rparr>"

text \<open>
  The \<open>while\<close> loop of \<open>PDFProcessor.chunk_text\<close>, with its state \<open>start\<close> and
  \<open>chunks\<close>. A run that never leaves the loop has the value \<open>None\<close>.
\<close>

partial_function (option) chunk_loop ::
  "config \<Rightarrow> pystr list \<Rightarrow> int \<Rightarrow> int \<Rightarrow> chunk list \<Rightarrow> chunk list option" where
  "chunk_loop cfg words cid start chunks =
     (if start < int (length words) then
        (let end_w = min (start + chunk_size cfg) (int (length words));
             chunks' = chunks @
               [new_chunk (cid + int (length chunks)) (join (py_slice words start end_w)) start end_w];
             start' = end_w - chunk_overlap cfg
         in if start' \<ge> int (length words) then Some chunks'
            else chunk_loop cfg words cid start' chunks')
      else Some chunks)"

declare chunk_loop.simps [code]

definition chunk_text :: "config \<Rightarrow> pystr \<Rightarrow> int \<Rightarrow> chunk list option" where
  "chunk_text cfg t cid =
     (let words = split t in
      if int (length words) \<le> chunk_size cfg
      then Some [new_chunk cid t 0 (int (length words))]
      else chunk_loop cfg words cid 0 [])"

text \<open>
  \<open>UltraMemoryOptimizedPDFProcessor.chunk_text_streaming\<close> (archive): the same loop as
  a generator, after a guard for blank texts. The value is the sequence a consumer
  collects by running the generator to its end, as \<open>process_pdf_ultra_optimized\<close> does.
\<close>

definition chunk_text_streaming :: "config \<Rightarrow> pystr \<Rightarrow> int \<Rightarrow> chunk list option" where
  "chunk_text_streaming cfg t cid =
     (if strip t = [] then Some [] else chunk_text cfg t cid)"

text \<open>A text of \<open>n\<close> words, each the letter a, separated by single spaces.\<close>

definition sample_text :: "nat \<Rightarrow> pystr" where
  "sample_text n = join (replicate n [97])"

section \<open>Page extraction\<close>

text \<open>
  What PyMuPDF gives for a file: \<open>fitz.open\<close> raises or returns a document, and for
  each page \<open>load_page\<close> and \<open>get_text\<close> raise or return the page's text, with the
  width and height of its rectangle.
\<close>

datatype page_src = PageError | PageOk pystr real real

datatype pdf_src = OpenError | Document "page_src list"

text \<open>The page dictionaries: keys \<open>page_number\<close>, \<open>text\<close>, \<open>page_width\<close>, \<open>page_height\<close>.\<close>

record page =
  pg_number :: int
  pg_text :: pystr
  pg_width :: real
  pg_height :: real

text \<open>
  The \<open>for\<close> loop of \<open>PDFProcessor.extract_text_from_pdf\<close> from page index \<open>n\<close> on;
  \<open>None\<close> is an exception leaving the loop.
\<close>

fun extract_pages :: "(pychar \<Rightarrow> bool) \<Rightarrow> int \<Rightarrow> page_src list \<Rightarrow> page list option" where
  "extract_pages ua n [] = Some []"
| "extract_pages ua n (PageError # ps) = None"
| "extract_pages ua n (PageOk raw w h # ps) =
     (let t = clean_text ua raw in
      case extract_pages ua (n + 1) ps of
        None \<Rightarrow> None
      | Some rest \<Rightarrow>
          Some (if strip t \<noteq> []
                then \<lparr>pg_number = n + 1, pg_text = t, pg_width = w, pg_height = h\<rparr> # rest
                else rest))"

text \<open>
  \<open>PDFProcessor.extract_text_from_pdf\<close>: one \<open>try\<close> around the whole function, whose
  handler logs the error and returns the empty list.
\<close>

definition extract_text_from_pdf :: "(pychar \<Rightarrow> bool) \<Rightarrow> pdf_src \<Rightarrow> page list" where
  "extract_text_from_pdf ua pdf =
     (case pdf of
        OpenError \<Rightarrow> []
      | Document ps \<Rightarrow> (case extract_pages ua 0 ps of None \<Rightarrow> [] | Some pages \<Rightarrow> pages))"

section \<open>Processing a document into chunks\<close>

text \<open>\<open>chunk.update({...})\<close> with the document id and the page's number and size.\<close>

definition stamp :: "pystr \<Rightarrow> page \<Rightarrow> chunk \<Rightarrow> chunk" where
  "stamp doc_id p c =
     c\<lparr>document_id := Some doc_id, page_number := Some (pg_number p),
       page_width := Some (pg_width p), page_height := Some (pg_height p)\<rparr>"

text \<open>The loop over the pages in \<open>PDFProcessor.process_pdf\<close>, with \<open>chunk_counter\<close>.\<close>

fun process_pages :: "config \<Rightarrow> pystr \<Rightarrow> int \<Rightarrow> page list \<Rightarrow> chunk list option" where
  "process_pages cfg doc_id chunk_counter [] = Some []"
| "process_pages cfg doc_id chunk_counter (p # ps) =
     (case chunk_text cfg (pg_text p) chunk_counter of
        None \<Rightarrow> None
      | Some page_chunks \<Rightarrow>
          (case process_pages cfg doc_id (chunk_counter + int (length page_chunks)) ps of
             None \<Rightarrow> None
           | Some rest \<Rightarrow> Some (map (stamp doc_id p) page_chunks @ rest)))"

definition process_pdf ::
  "config \<Rightarrow> (pychar \<Rightarrow> bool) \<Rightarrow> pdf_src \<Rightarrow> pystr \<Rightarrow> chunk list option" where
  "process_pdf cfg ua pdf doc_id =
     (let pages = extract_text_from_pdf ua pdf in
      if pages = [] then Some [] else process_pages cfg doc_id 0 pages)"




section \<open>The page-by-page processor\<close>

text \<open>
  \<open>PDFPageProcessor._chunk_text_langchain\<close>: the text splitter of LangChain is a
  parameter, \<open>None\<close> when it raises; the handler falls back to the whole text.
\<close>

definition chunk_text_langchain :: "(pystr \<Rightarrow> pystr list option) \<Rightarrow> pystr \<Rightarrow> pystr list" where
  "chunk_text_langchain split_text t = (case split_text t of None \<Rightarrow> [t] | Some cs \<Rightarrow> cs)"

text \<open>
  The dictionary \<open>data\<close> that \<open>process_pdf_page_by_page\<close> builds for chunk
  \<open>chunk_idx\<close> of the page with index \<open>page_num\<close>.
\<close>

definition page_chunk_data ::
  "pystr \<Rightarrow> int \<Rightarrow> real \<Rightarrow> real \<Rightarrow> int \<Rightarrow> pystr \<Rightarrow> vec \<Rightarrow> chunk" where
  "page_chunk_data doc_id page_num w h chunk_idx t e =
     \<lparr>chunk_id = Some (page_num * 1000 + chunk_idx), text_val = Some t,
      start_word = None, end_word = None,
      document_id = Some doc_id, page_number = Some (page_num + 1),
      page_width = Some w, page_height = Some h, embedding = Some e\<rparr>"

text \<open>
  The loop over \<open>enumerate(page_chunks)\<close>: the dictionaries handed to
  \<open>insert_documents\<close>, in order; a chunk whose embedding is empty is skipped.
  \<open>embed_one\<close> is \<open>generate_single_embedding\<close>.
\<close>

fun page_data ::
  "(pystr \<Rightarrow> vec) \<Rightarrow> pystr \<Rightarrow> int \<Rightarrow> real \<Rightarrow> real \<Rightarrow> int \<Rightarrow> pystr list \<Rightarrow> chunk list" where
  "page_data embed_one doc_id page_num w h chunk_idx [] = []"
| "page_data embed_one doc_id page_num w h chunk_idx (t # ts) =
     (let e = embed_one t in
      (if e \<noteq> [] then [page_chunk_data doc_id page_num w h chunk_idx t e] else [])
      @ page_data embed_one doc_id page_num w h (chunk_idx + 1) ts)"

text \<open>
  The loop over the pages of \<open>process_pdf_page_by_page\<close>, from page index \<open>page_num\<close>
  on. Each page has its own \<open>try\<close>: a page that fails to load is logged and the loop
  continues with the next one.
\<close>

fun page_by_page ::
  "(pychar \<Rightarrow> bool) \<Rightarrow> (pystr \<Rightarrow> pystr list option) \<Rightarrow> (pystr \<Rightarrow> vec) \<Rightarrow> pystr \<Rightarrow> int
    \<Rightarrow> page_src list \<Rightarrow> chunk list" where
  "page_by_page ua split_text embed_one doc_id page_num [] = []"
| "page_by_page ua split_text embed_one doc_id page_num (PageError # ps) =
     page_by_page ua split_text embed_one doc_id (page_num + 1) ps"
| "page_by_page ua split_text embed_one doc_id page_num (PageOk raw w h # ps) =
     (let t = clean_text_page ua raw in
      (if strip t \<noteq> []
       then page_data embed_one doc_id page_num w h 0 (chunk_text_langchain split_text t)
       else [])
      @ page_by_page ua split_text embed_one doc_id (page_num + 1) ps)"

text \<open>
  The chunks \<open>PDFPageProcessor.process_pdf_page_by_page\<close> produces for a file, in the
  order it hands them to the vector store; none when the file is missing or does not
  open.
\<close>

definition process_pdf_page_by_page ::
  "(pychar \<Rightarrow> bool) \<Rightarrow> (pystr \<Rightarrow> pystr list option) \<Rightarrow> (pystr \<Rightarrow> vec) \<Rightarrow> bool \<Rightarrow> pdf_src
    \<Rightarrow> pystr \<Rightarrow> chunk list" where
  "process_pdf_page_by_page ua split_text embed_one path_exists pdf doc_id =
     (if \<not> path_exists then []
      else case pdf of
        OpenError \<Rightarrow> []
      | Document ps \<Rightarrow> page_by_page ua split_text embed_one doc_id 0 ps)"

text \<open>
  A document of three pages whose second page cannot be read, one whose second page
  is blank, and one whose first page the splitter cuts into 1001 chunks.
\<close>

definition bad_pages :: "page_src list" where
  "bad_pages = [PageOk [97] 612 792, PageError, PageOk [98] 612 792]"

definition blank_pages :: "page_src list" where
  "blank_pages = [PageOk [97, 32, 98] 612 792, PageOk [32, 10] 612 792, PageOk [99] 612 792]"

definition two_pages :: "page_src list" where
  "two_pages = [PageOk [97] 612 792, PageOk [98] 612 792]"

text \<open>A Unicode database with no alphanumeric code point above 127, and a document id.\<close>

definition ascii_only :: "pychar \<Rightarrow> bool" where
  "ascii_only c = False"

definition doc_d :: pystr where
  "doc_d = [100]"

definition split_1001 :: "pystr \<Rightarrow> pystr list option" where
  "split_1001 t = (if t = [97] then Some (replicate 1001 [97]) else Some [t])"

definition split_whole :: "pystr \<Rightarrow> pystr list option" where
  "split_whole t = Some [t]"

definition embed_unit :: "pystr \<Rightarrow> vec" where
  "embed_unit t = [Num 1]"


section \<open>Batches\<close>

text \<open>
  The slices \<open>xs[i:i + n]\<close> for \<open>i\<close> in \<open>range(0, len(xs), n)\<close>. For \<open>n = 0\<close>
  \<open>range\<close> raises \<open>ValueError\<close> (here \<open>None\<close>); a negative step gives an empty range.
\<close>

function batches :: "nat \<Rightarrow> 'a list \<Rightarrow> 'a list list" where
  "batches n xs = (if n = 0 \<or> xs = [] then [] else take n xs # batches n (drop n xs))"
  by pat_completeness auto
termination
  by (relation "measure (\<lambda>(n, xs). length xs)") auto

declare batches.simps [simp del]

definition py_batches :: "int \<Rightarrow> 'a list \<Rightarrow> 'a list list option" where
  "py_batches n xs =
     (if n = 0 then None else if n < 0 then Some [] else Some (batches (nat n) xs))"

section \<open>Embedding in batches\<close>

text \<open>
  The embedding generator is a parameter: \<open>gen_emb\<close> is \<open>generate_embeddings\<close> (which
  returns the empty list when the model or the API fails) and \<open>embed_one\<close> is
  \<open>generate_single_embedding\<close>.

  \<open>[chunk["text"] for chunk in batch]\<close> raises \<open>KeyError\<close>, here \<open>None\<close>, when a chunk
  has no text.
\<close>

fun batch_texts :: "chunk list \<Rightarrow> pystr list option" where
  "batch_texts [] = Some []"
| "batch_texts (c # cs) =
     (case text_val c of
        None \<Rightarrow> None
      | Some t \<Rightarrow> (case batch_texts cs of None \<Rightarrow> None | Some ts \<Rightarrow> Some (t # ts)))"

text \<open>
  The loop over \<open>enumerate(batch)\<close> from position \<open>j\<close> on: a chunk with a vector at its
  position gets it and is appended to \<open>chunks_with_embeddings\<close>; for any other chunk
  the warning ``Missing embedding for chunk'' is logged with \<open>chunk.get('chunk_id')\<close>.
\<close>

fun attach ::
  "vec list \<Rightarrow> nat \<Rightarrow> chunk list \<Rightarrow> chunk list \<Rightarrow> int option list
    \<Rightarrow> chunk list \<times> int option list" where
  "attach embeddings j [] acc warned = (acc, warned)"
| "attach embeddings j (c # cs) acc warned =
     (if j < length embeddings
      then attach embeddings (j + 1) cs (acc @ [c\<lparr>embedding := Some (embeddings ! j)\<rparr>]) warned
      else attach embeddings (j + 1) cs acc (warned @ [chunk_id c]))"

text \<open>The loop over the batches; \<open>None\<close> in the first component is an exception.\<close>

fun embed_batches ::
  "(pystr list \<Rightarrow> vec list) \<Rightarrow> chunk list list \<Rightarrow> chunk list \<Rightarrow> int option list
    \<Rightarrow> chunk list option \<times> int option list" where
  "embed_batches gen_emb [] acc warned = (Some acc, warned)"
| "embed_batches gen_emb (b # bs) acc warned =
     (case batch_texts b of
        None \<Rightarrow> (None, warned)
      | Some texts \<Rightarrow>
          (case attach (gen_emb texts) 0 b acc warned of
             (acc', warned') \<Rightarrow> embed_batches gen_emb bs acc' warned'))"

text \<open>
  \<open>PDFToMilvusBatch.generate_embeddings_in_batches\<close>: the chunks with embeddings, and
  the chunk ids of the warnings logged. Any exception ends the call with the empty list.
\<close>

definition generate_embeddings_in_batches ::
  "(pystr list \<Rightarrow> vec list) \<Rightarrow> int \<Rightarrow> chunk list \<Rightarrow> chunk list \<times> int option list" where
  "generate_embeddings_in_batches gen_emb embedding_batch_size chunks =
     (case py_batches embedding_batch_size chunks of
        None \<Rightarrow> ([], [])
      | Some bs \<Rightarrow>
          (case embed_batches gen_emb bs [] [] of
             (None, warned) \<Rightarrow> ([], warned)
           | (Some out, warned) \<Rightarrow> (out, warned)))"

text \<open>\<open>DIMENSION\<close> of config.py, by \<open>USE_OPENAI_EMBEDDINGS\<close>.\<close>

definition DIMENSION :: "bool \<Rightarrow> nat" where
  "DIMENSION use_openai = (if use_openai then 1536 else 384)"

fun is_num :: "elem \<Rightarrow> bool" where
  "is_num (Num x) = True"
| "is_num NonNum = False"

text \<open>
  \<open>validate_embedding\<close>: the expected dimension is the length of the embedding the
  generator gives for the text ``test'', and is not checked when that is 0.
\<close>

definition get_embedding_dimension :: "(pystr \<Rightarrow> vec) \<Rightarrow> nat" where
  "get_embedding_dimension embed_one = length (embed_one [116, 101, 115, 116])"

definition validate_embedding :: "(pystr \<Rightarrow> vec) \<Rightarrow> vec \<Rightarrow> bool" where
  "validate_embedding embed_one e =
     (if e = [] then False
      else if \<not> list_all is_num e then False
      else (let expected_dim = get_embedding_dimension embed_one in
            if expected_dim > 0 \<and> length e \<noteq> expected_dim then False else True))"

text \<open>What a chunk is without its embedding, and a chunk with the vector \<open>e\<close>.\<close>

definition clear_embedding :: "chunk \<Rightarrow> chunk" where
  "clear_embedding c = c\<lparr>embedding := None\<rparr>"

definition with_embedding :: "chunk \<Rightarrow> vec \<Rightarrow> chunk" where
  "with_embedding c e = c\<lparr>embedding := Some e\<rparr>"

text \<open>The texts of a batch whose chunks all have one.\<close>

definition texts_of :: "chunk list \<Rightarrow> pystr list" where
  "texts_of b = map (\<lambda>c. case text_val c of None \<Rightarrow> [] | Some t \<Rightarrow> t) b"

text \<open>
  What one batch contributes, stated directly: the chunks paired with the vectors
  returned for the batch, position by position, and the ids of the chunks left over.
\<close>

definition batch_out :: "(pystr list \<Rightarrow> vec list) \<Rightarrow> chunk list \<Rightarrow> chunk list" where
  "batch_out gen_emb b = map (\<lambda>(c, e). with_embedding c e) (zip b (gen_emb (texts_of b)))"

definition batch_warned :: "(pystr list \<Rightarrow> vec list) \<Rightarrow> chunk list \<Rightarrow> int option list" where
  "batch_warned gen_emb b = map chunk_id (drop (length (gen_emb (texts_of b))) b)"

text \<open>
  Generators for the examples: one vector of one number for every text, and the same
  but never more than two vectors for a call. Four chunks of one word.
\<close>

definition gen_short :: "pystr list \<Rightarrow> vec list" where
  "gen_short ts = map (\<lambda>t. [Num 1]) ts"

definition gen_two :: "pystr list \<Rightarrow> vec list" where
  "gen_two ts = take 2 (gen_short ts)"

definition four_chunks :: "chunk list" where
  "four_chunks = [new_chunk 0 [97] 0 1, new_chunk 1 [98] 0 1, new_chunk 2 [99] 0 1,
     new_chunk 3 [100] 0 1]"

section \<open>The vector store\<close>

text \<open>
  The Milvus server as the client sees it: whether the connection is up, and the
  collections by name, each with the fields of its schema, the entities inserted and
  whether the embedding field has an index. Calls of \<open>pymilvus\<close> raise without a
  connection and otherwise do what their names say.
\<close>

datatype dtype = INT64 | VARCHAR nat | FLOAT_VECTOR nat

record field_schema =
  field_name :: string
  field_dtype :: dtype
  is_primary :: bool
  auto_id :: bool

record collection =
  coll_fields :: "field_schema list"
  coll_rows :: "chunk list"
  coll_indexed :: bool

record server =
  connected :: bool
  collections :: "string \<rightharpoonup> collection"

text \<open>The \<open>MilvusClient\<close> object; \<open>handle\<close> is \<open>self.collection\<close>.\<close>

record milvus_client =
  collection_name :: string
  dimension :: nat
  handle :: "string option"

definition COLLECTION_NAME :: string where
  "COLLECTION_NAME = ''pdf_documents''"

definition schema_fields :: "nat \<Rightarrow> field_schema list" where
  "schema_fields d =
     [\<lparr>field_name = ''id'', field_dtype = INT64, is_primary = True, auto_id = True\<rparr>,
      \<lparr>field_name = ''document_id'', field_dtype = VARCHAR 100, is_primary = False, auto_id = False\<rparr>,
      \<lparr>field_name = ''page_number'', field_dtype = INT64, is_primary = False, auto_id = False\<rparr>,
      \<lparr>field_name = ''chunk_id'', field_dtype = INT64, is_primary = False, auto_id = False\<rparr>,
      \<lparr>field_name = ''text'', field_dtype = VARCHAR MAX_TEXT_LENGTH, is_primary = False,
        auto_id = False\<rparr>,
      \<lparr>field_name = ''embedding'', field_dtype = FLOAT_VECTOR d, is_primary = False,
        auto_id = False\<rparr>]"

definition expected_field_names :: "string list" where
  "expected_field_names =
     [''id'', ''document_id'', ''page_number'', ''chunk_id'', ''text'', ''embedding'']"

definition drop_collection :: "server \<Rightarrow> string \<Rightarrow> server" where
  "drop_collection srv name = srv\<lparr>collections := (collections srv)(name := None)\<rparr>"

text \<open>
  \<open>Collection(name, schema)\<close>: creates the collection when the server has none of
  that name, returns the existing one when its schema is the one passed, and raises
  (here \<open>None\<close>) when a collection of that name exists with another schema.
\<close>

definition new_collection :: "server \<Rightarrow> string \<Rightarrow> field_schema list \<Rightarrow> server option" where
  "new_collection srv name fs =
     (case collections srv name of
        None \<Rightarrow>
          Some (srv\<lparr>collections := (collections srv)(name \<mapsto>
            \<lparr>coll_fields = fs, coll_rows = [], coll_indexed = False\<rparr>)\<rparr>)
      | Some c \<Rightarrow> if coll_fields c = fs then Some srv else None)"

text \<open>
  \<open>collection.create_index\<close> in its own \<open>try\<close>: \<open>index_ok\<close> says whether the call
  succeeds; a failure is logged and ignored.
\<close>

definition create_index :: "server \<Rightarrow> string \<Rightarrow> bool \<Rightarrow> server" where
  "create_index srv name index_ok =
     (case collections srv name of
        None \<Rightarrow> srv
      | Some c \<Rightarrow>
          if index_ok then srv\<lparr>collections := (collections srv)(name \<mapsto> c\<lparr>coll_indexed := True\<rparr>)\<rparr>
          else srv)"

text \<open>
  \<open>MilvusClient.create_collection\<close>: the value returned, the client and the server.
  An exception leaves the client and the server as they are at that point and returns
  \<open>False\<close>. For an existing collection \<open>self.collection\<close> is set before the field names
  are compared.
\<close>

definition create_collection ::
  "milvus_client \<Rightarrow> server \<Rightarrow> bool \<Rightarrow> bool \<times> milvus_client \<times> server" where
  "create_collection cl srv index_ok =
     (if \<not> connected srv then (False, cl, srv)
      else
        let name = collection_name cl;
            fs = schema_fields (dimension cl)
        in case collections srv name of
             Some existing \<Rightarrow>
               (let cl1 = cl\<lparr>handle := Some name\<rparr> in
                if map field_name (coll_fields existing) \<noteq> expected_field_names
                then
                  (let srv1 = drop_collection srv name in
                   case new_collection srv1 name fs of
                     None \<Rightarrow> (False, cl1, srv1)
                   | Some srv2 \<Rightarrow> (True, cl1, create_index srv2 name index_ok))
                else (True, cl1, create_index srv name index_ok))
           | None \<Rightarrow>
               (case new_collection srv name fs of
                  None \<Rightarrow> (False, cl, srv)
                | Some srv2 \<Rightarrow>
                    (True, cl\<lparr>handle := Some name\<rparr>, create_index srv2 name index_ok)))"

text \<open>
  The validation loop of \<open>insert_documents\<close>: a document without one of the five
  required keys is logged and skipped; the others are rebuilt with the id cut to 100
  characters and the text to \<open>MAX_TEXT_LENGTH\<close>.
\<close>

fun valid_documents :: "chunk list \<Rightarrow> chunk list" where
  "valid_documents [] = []"
| "valid_documents (doc # docs) =
     (case document_id doc of None \<Rightarrow> valid_documents docs | Some d \<Rightarrow>
      case page_number doc of None \<Rightarrow> valid_documents docs | Some pn \<Rightarrow>
      case chunk_id doc of None \<Rightarrow> valid_documents docs | Some ci \<Rightarrow>
      case text_val doc of None \<Rightarrow> valid_documents docs | Some t \<Rightarrow>
      case embedding doc of None \<Rightarrow> valid_documents docs | Some e \<Rightarrow>
        (let doc_id = (if length d > 100 then take 100 d else d) in
         \<lparr>chunk_id = Some ci, text_val = Some (take MAX_TEXT_LENGTH t),
          start_word = None, end_word = None,
          document_id = Some doc_id, page_number = Some pn,
          page_width = None, page_height = None, embedding = Some e\<rparr>
         # valid_documents docs))"

text \<open>
  \<open>collection.insert(valid_documents)\<close>: \<open>accepts\<close> says whether the server takes the
  entities; \<open>None\<close> is an exception, which leaves the collection as it was.
\<close>

definition collection_insert ::
  "server \<Rightarrow> string \<Rightarrow> (chunk list \<Rightarrow> bool) \<Rightarrow> chunk list \<Rightarrow> server option" where
  "collection_insert srv name accepts entities =
     (if \<not> connected srv \<or> \<not> accepts entities then None
      else case collections srv name of
        None \<Rightarrow> None
      | Some c \<Rightarrow>
          Some (srv\<lparr>collections := (collections srv)(name \<mapsto>
            c\<lparr>coll_rows := coll_rows c @ entities\<rparr>)\<rparr>))"

text \<open>
  \<open>MilvusClient.insert_documents\<close>: the value returned and the server. \<open>flushes\<close>
  says whether \<open>collection.flush()\<close> returns after the insert of the entities; when it
  raises, the handler returns \<open>False\<close> and the entities stay inserted.
\<close>

definition insert_documents ::
  "milvus_client \<Rightarrow> server \<Rightarrow> (chunk list \<Rightarrow> bool) \<Rightarrow> (chunk list \<Rightarrow> bool) \<Rightarrow> chunk list
    \<Rightarrow> bool \<times> server" where
  "insert_documents cl srv accepts flushes documents =
     (case handle cl of
        None \<Rightarrow> (False, srv)
      | Some name \<Rightarrow>
          if documents = [] then (True, srv)
          else
            let valid = valid_documents documents in
            if valid = [] then (False, srv)
            else (case collection_insert srv name accepts valid of
                    None \<Rightarrow> (False, srv)
                  | Some srv' \<Rightarrow> if flushes valid then (True, srv') else (False, srv')))"

text \<open>
  The required keys of a document, and the entity built from a document that has
  them, stated directly.
\<close>

definition complete :: "chunk \<Rightarrow> bool" where
  "complete doc =
     (document_id doc \<noteq> None \<and> page_number doc \<noteq> None \<and> chunk_id doc \<noteq> None \<and>
      text_val doc \<noteq> None \<and> embedding doc \<noteq> None)"

definition entity_of :: "chunk \<Rightarrow> chunk" where
  "entity_of doc =
     \<lparr>chunk_id = chunk_id doc, text_val = map_option (take MAX_TEXT_LENGTH) (text_val doc),
      start_word = None, end_word = None,
      document_id = map_option (take 100) (document_id doc), page_number = page_number doc,
      page_width = None, page_height = None, embedding = embedding doc\<rparr>"

text \<open>The number of entities in the collection the client holds, 0 when it holds none.\<close>

definition row_count :: "milvus_client \<Rightarrow> server \<Rightarrow> nat" where
  "row_count cl srv =
     (case handle cl of
        None \<Rightarrow> 0
      | Some name \<Rightarrow>
          (case collections srv name of None \<Rightarrow> 0 | Some c \<Rightarrow> length (coll_rows c)))"

section \<open>Storing a document\<close>

text \<open>
  The loop over the batches in \<open>store_pdf_with_progress\<close>, with the counters
  \<open>successful_chunks\<close> and \<open>failed_chunks\<close> and the server.
\<close>

fun store_batches ::
  "(pystr list \<Rightarrow> vec list) \<Rightarrow> (pystr \<Rightarrow> vec) \<Rightarrow> (chunk list \<Rightarrow> bool) \<Rightarrow> (chunk list \<Rightarrow> bool)
    \<Rightarrow> int \<Rightarrow> milvus_client \<Rightarrow> chunk list list \<Rightarrow> nat \<Rightarrow> nat \<Rightarrow> server
    \<Rightarrow> nat \<times> nat \<times> server" where
  "store_batches gen_emb embed_one accepts flushes ebs cl [] successful failed srv =
     (successful, failed, srv)"
| "store_batches gen_emb embed_one accepts flushes ebs cl (batch # rest) successful failed srv =
     (let chunks_with_embeddings = fst (generate_embeddings_in_batches gen_emb ebs batch) in
      if chunks_with_embeddings = []
      then store_batches gen_emb embed_one accepts flushes ebs cl rest successful
             (failed + length batch) srv
      else
        let valid_chunks =
              filter (\<lambda>c. validate_embedding embed_one
                             (case embedding c of None \<Rightarrow> [] | Some e \<Rightarrow> e))
                chunks_with_embeddings
        in if valid_chunks = []
           then store_batches gen_emb embed_one accepts flushes ebs cl rest successful
                  (failed + length batch) srv
           else (case insert_documents cl srv accepts flushes valid_chunks of
                   (True, srv') \<Rightarrow>
                     store_batches gen_emb embed_one accepts flushes ebs cl rest
                       (successful + length valid_chunks) failed srv'
                 | (False, srv') \<Rightarrow>
                     store_batches gen_emb embed_one accepts flushes ebs cl rest successful
                       (failed + length valid_chunks) srv'))"

text \<open>
  \<open>PDFToMilvusBatch.store_pdf_with_progress\<close>. \<open>path_exists\<close> is \<open>os.path.exists\<close>,
  \<open>fresh_id\<close> the value of \<open>uuid.uuid4()\<close>, \<open>accepts\<close> and \<open>flushes\<close> the store's
  answers to \<open>insert\<close> and \<open>flush\<close>, \<open>batch_size\<close> and \<open>ebs\<close> the two batch
  sizes of the constructor. The result is the value returned, the two counters and the
  server; \<open>None\<close> when \<open>process_pdf\<close> does not return. The handler around the body turns
  an exception (the \<open>ValueError\<close> of a zero batch size, the \<open>ZeroDivisionError\<close> of the
  success rate when no batch was run) into \<open>False\<close>.
\<close>

definition store_pdf_with_progress ::
  "config \<Rightarrow> (pychar \<Rightarrow> bool) \<Rightarrow> (pystr list \<Rightarrow> vec list) \<Rightarrow> (pystr \<Rightarrow> vec) \<Rightarrow> (chunk list \<Rightarrow> bool)
    \<Rightarrow> (chunk list \<Rightarrow> bool) \<Rightarrow> int \<Rightarrow> int \<Rightarrow> pystr \<Rightarrow> milvus_client \<Rightarrow> server \<Rightarrow> bool \<Rightarrow> pdf_src \<Rightarrow> pystr option
    \<Rightarrow> (bool \<times> nat \<times> nat \<times> server) option" where
  "store_pdf_with_progress cfg ua gen_emb embed_one accepts flushes batch_size ebs fresh_id cl
     srv path_exists pdf doc_id_arg =
     (if \<not> path_exists then Some (False, 0, 0, srv)
      else
        let doc_id = (case doc_id_arg of
                        None \<Rightarrow> fresh_id
                      | Some d \<Rightarrow> if d = [] then fresh_id else d)
        in case process_pdf cfg ua pdf doc_id of
             None \<Rightarrow> None
           | Some all_chunks \<Rightarrow>
               if all_chunks = [] then Some (False, 0, 0, srv)
               else (case py_batches batch_size all_chunks of
                       None \<Rightarrow> Some (False, 0, 0, srv)
                     | Some bs \<Rightarrow>
                         (case store_batches gen_emb embed_one accepts flushes ebs cl bs 0 0 srv of
                            (successful, failed, srv') \<Rightarrow>
                              if successful + failed = 0
                              then Some (False, successful, failed, srv')
                              else Some (successful > 0, successful, failed, srv'))))"

text \<open>
  Examples: a client before and after \<open>create_collection\<close>; a server whose collection
  has two fields only and one entity; a server with the collection as the client
  creates it; a document with an id of 150 characters and a text of 9000, and one with
  no document id; a document of one page of 1001 words; answers of the store that
  accept or refuse everything.
\<close>

definition client_new :: milvus_client where
  "client_new = \<lparr>collection_name = COLLECTION_NAME, dimension = DIMENSION False, handle = None\<rparr>"

definition client_ready :: milvus_client where
  "client_ready = client_new\<lparr>handle := Some COLLECTION_NAME\<rparr>"

definition long_doc :: chunk where
  "long_doc =
     \<lparr>chunk_id = Some 0, text_val = Some (replicate 9000 97), start_word = Some 0,
      end_word = Some 1, document_id = Some (replicate 150 100), page_number = Some 1,
      page_width = Some 612, page_height = Some 792, embedding = Some [Num 1]\<rparr>"

definition server_old :: server where
  "server_old =
     \<lparr>connected = True,
      collections = [COLLECTION_NAME \<mapsto>
        \<lparr>coll_fields =
           [\<lparr>field_name = ''id'', field_dtype = INT64, is_primary = True, auto_id = True\<rparr>,
            \<lparr>field_name = ''text'', field_dtype = VARCHAR 100, is_primary = False,
              auto_id = False\<rparr>],
         coll_rows = [long_doc], coll_indexed = True\<rparr>]\<rparr>"

definition server_ready :: server where
  "server_ready =
     \<lparr>connected = True,
      collections = [COLLECTION_NAME \<mapsto>
        \<lparr>coll_fields = schema_fields (DIMENSION False), coll_rows = [], coll_indexed = True\<rparr>]\<rparr>"

definition long_page :: "page_src list" where
  "long_page = [PageOk (sample_text 1001) 612 792]"

definition accept_all :: "chunk list \<Rightarrow> bool" where
  "accept_all entities = True"

definition refuse_all :: "chunk list \<Rightarrow> bool" where
  "refuse_all entities = False"

section \<open>Properties of splitting and joining\<close>

definition word_ok :: "pystr \<Rightarrow> bool" where
  "word_ok w = (w \<noteq> [] \<and> list_all (\<lambda>c. \<not> is_space c) w)"

lemma is_space_SP [simp]: "is_space SP"
  by (simp add: is_space_def)

lemma split_aux_words:
  "list_all (\<lambda>c. \<not> is_space c) cur \<Longrightarrow> list_all word_ok (split_aux cur t)"
  by (induction t arbitrary: cur) (auto simp: word_ok_def)

lemma split_words: "list_all word_ok (split t)"
  by (simp add: split_def split_aux_words)

lemma split_aux_chars:
  "list_all P cur \<Longrightarrow> list_all P t \<Longrightarrow> list_all (list_all P) (split_aux cur t)"
  by (induction t arbitrary: cur) auto

lemma split_chars: "list_all P t \<Longrightarrow> list_all (list_all P) (split t)"
  by (simp add: split_def split_aux_chars)

lemma split_aux_append:
  "list_all (\<lambda>c. \<not> is_space c) w \<Longrightarrow> split_aux cur (w @ t) = split_aux (cur @ w) t"
  by (induction w arbitrary: cur) auto

lemma split_aux_join:
  "list_all word_ok (w # ws) \<Longrightarrow> split_aux [] (join (w # ws)) = w # ws"
proof (induction ws arbitrary: w)
  case Nil
  then have "split_aux [] (w @ []) = split_aux ([] @ w) []"
    by (intro split_aux_append) (simp add: word_ok_def)
  with Nil show ?case by (simp add: word_ok_def)
next
  case (Cons v vs)
  then have w: "w \<noteq> []" "list_all (\<lambda>c. \<not> is_space c) w"
    by (simp_all add: word_ok_def)
  have "split_aux [] (w @ SP # join (v # vs)) = split_aux ([] @ w) (SP # join (v # vs))"
    using w(2) by (rule split_aux_append)
  also have "\<dots> = w # split_aux [] (join (v # vs))"
    using w(1) by simp
  also have "\<dots> = w # v # vs"
    using Cons by simp
  finally show ?case by simp
qed

lemma split_join: "list_all word_ok ws \<Longrightarrow> split (join ws) = ws"
  by (cases ws) (simp_all add: split_def split_aux_join)

lemma re_sub_ws_append:
  "list_all (\<lambda>c. \<not> is_space c) w \<Longrightarrow> re_sub_ws (w @ t) = w @ re_sub_ws t"
  by (induction w) auto

lemma dropWhile_join:
  "list_all word_ok (w # ws) \<Longrightarrow> dropWhile is_space (join (w # ws)) = join (w # ws)"
  by (cases w; cases ws) (auto simp: word_ok_def)

lemma re_sub_ws_join: "list_all word_ok ws \<Longrightarrow> re_sub_ws (join ws) = join ws"
proof (induction ws rule: join.induct)
  case 1
  then show ?case by simp
next
  case (2 w)
  then have "re_sub_ws (w @ []) = w @ re_sub_ws []"
    by (intro re_sub_ws_append) (simp add: word_ok_def)
  then show ?case by simp
next
  case (3 w v ws)
  from 3 have w: "list_all (\<lambda>c. \<not> is_space c) w"
    by (simp add: word_ok_def)
  from 3 have rest: "list_all word_ok (v # ws)"
    by simp
  have "re_sub_ws (w @ SP # join (v # ws)) = w @ re_sub_ws (SP # join (v # ws))"
    using w by (rule re_sub_ws_append)
  also have "\<dots> = w @ SP # re_sub_ws (join (v # ws))"
    using dropWhile_join [OF rest] by simp
  also have "\<dots> = w @ SP # join (v # ws)"
    using 3 rest by simp
  finally show ?case by simp
qed

lemma filter_join:
  "list_all (list_all P) ws \<Longrightarrow> P SP \<Longrightarrow> filter P (join ws) = join ws"
  by (induction ws rule: join.induct) (auto simp: list_all_iff)

lemma last_join:
  "list_all word_ok (w # ws) \<Longrightarrow> \<not> is_space (last (join (w # ws)))"
proof (induction ws arbitrary: w)
  case Nil
  then show ?case by (auto simp: word_ok_def list_all_iff)
next
  case (Cons v vs)
  then have "\<not> is_space (last (join (v # vs)))" by simp
  moreover have "join (v # vs) \<noteq> []"
    using Cons.prems by (cases vs) (auto simp: word_ok_def)
  ultimately show ?case by simp
qed

lemma strip_join: "list_all word_ok ws \<Longrightarrow> strip (join ws) = join ws"
proof (cases ws)
  case Nil
  then show ?thesis by (simp add: strip_def)
next
  case (Cons w vs)
  assume ok: "list_all word_ok ws"
  let ?j = "join (w # vs)"
  have ne: "?j \<noteq> []"
    using ok Cons by (cases vs) (auto simp: word_ok_def)
  have front: "dropWhile is_space ?j = ?j"
    using ok Cons dropWhile_join by simp
  have "\<not> is_space (hd (rev ?j))"
    using ok Cons last_join [of w vs] ne by (simp add: hd_rev)
  then have "dropWhile is_space (rev ?j) = rev ?j"
    using ne by (cases "rev ?j") auto
  with front Cons show ?thesis by (simp add: strip_def)
qed

lemma clean_text_join:
  "\<exists>ws. clean_text ua t = join ws \<and> list_all word_ok ws \<and> list_all (list_all (kept ua)) ws"
proof -
  let ?ws = "split (re_sub_special ua (re_sub_ws t))"
  have ok: "list_all word_ok ?ws" by (rule split_words)
  have "list_all (kept ua) (re_sub_special ua (re_sub_ws t))"
    by (simp add: re_sub_special_def list_all_iff)
  then have "list_all (list_all (kept ua)) ?ws" by (rule split_chars)
  moreover have "clean_text ua t = join ?ws"
    using ok by (simp add: clean_text_def strip_join)
  ultimately show ?thesis using ok by blast
qed

lemma clean_text_fixed:
  assumes "list_all word_ok ws" and "list_all (list_all (kept ua)) ws"
  shows "clean_text ua (join ws) = join ws"
proof -
  have "kept ua SP" by (simp add: kept_def)
  with assms show ?thesis
    by (simp add: clean_text_def re_sub_ws_join re_sub_special_def filter_join
        split_join strip_join)
qed

section \<open>Idempotence of text cleaning\<close>

text \<open>
  C9. Cleaning is idempotent: cleaning a text that has already been cleaned returns it
  unchanged, for every text, in both variants of \<open>_clean_text\<close> and whatever the
  Unicode database says about the alphanumeric code points above 127.
\<close>

theorem clean_text_idempotent:
  "clean_text ua (clean_text ua t) = clean_text ua t \<and>
   clean_text_page ua (clean_text_page ua t) = clean_text_page ua t"
proof -
  obtain ws where "clean_text ua t = join ws" "list_all word_ok ws"
    "list_all (list_all (kept ua)) ws"
    using clean_text_join by blast
  then have "clean_text ua (clean_text ua t) = clean_text ua t"
    by (simp add: clean_text_fixed)
  then show ?thesis by (simp add: clean_text_page_def)
qed

section \<open>The chunking loop\<close>

lemma split_sample_text: "split (sample_text n) = replicate n [97]"
  unfolding sample_text_def
  by (rule split_join) (simp add: list_all_iff word_ok_def is_space_def)

lemma chunk_loop_stuck:
  assumes ret: "chunk_loop cfg words cid start chunks = Some r"
  shows "\<not> (0 < chunk_overlap cfg \<and> start < int (length words))"
proof (rule chunk_loop.raw_induct
    [where P = "\<lambda>cfg words cid start chunks r.
        \<not> (0 < chunk_overlap cfg \<and> start < int (length words))", OF _ ret], goal_cases)
  case (1 f cfg words cid start chunks r)
  show ?case
  proof
    assume a: "0 < chunk_overlap cfg \<and> start < int (length words)"
    let ?e = "min (start + chunk_size cfg) (int (length words))"
    have lt: "?e - chunk_overlap cfg < int (length words)"
      using a by linarith
    with 1(2) a obtain ch where rec: "f cfg words cid (?e - chunk_overlap cfg) ch = Some r"
      by (simp add: Let_def split: if_splits)
    have "\<not> (0 < chunk_overlap cfg \<and> ?e - chunk_overlap cfg < int (length words))"
      using rec by (rule 1(1))
    with a lt show False by simp
  qed
qed

lemma chunk_text_single:
  "int (length (split t)) \<le> chunk_size cfg \<Longrightarrow>
   chunk_text cfg t cid = Some [new_chunk cid t 0 (int (length (split t)))]"
  by (simp add: chunk_text_def)

lemma chunk_loop_returns:
  assumes "chunk_overlap cfg \<le> 0" and "0 < chunk_size cfg"
  shows "\<exists>r. chunk_loop cfg words cid start chunks = Some r"
proof (induction "nat (int (length words) - start)" arbitrary: start chunks rule: less_induct)
  case less
  let ?w = "int (length words)"
  let ?e = "min (start + chunk_size cfg) ?w"
  let ?ch = "chunks @
      [new_chunk (cid + int (length chunks)) (join (py_slice words start ?e)) start ?e]"
  show ?case
  proof (cases "start < ?w")
    case False
    then show ?thesis by (subst chunk_loop.simps) simp
  next
    case True
    show ?thesis
    proof (cases "?e - chunk_overlap cfg \<ge> ?w")
      case True
      with \<open>start < ?w\<close> show ?thesis by (subst chunk_loop.simps) (simp add: Let_def)
    next
      case False
      from assms \<open>start < ?w\<close> have "start < ?e - chunk_overlap cfg" by linarith
      with \<open>start < ?w\<close> have "nat (?w - (?e - chunk_overlap cfg)) < nat (?w - start)"
        by linarith
      from less [OF this] obtain r where
        "chunk_loop cfg words cid (?e - chunk_overlap cfg) ?ch = Some r" by blast
      with False \<open>start < ?w\<close> show ?thesis
        by (subst chunk_loop.simps) (simp add: Let_def)
    qed
  qed
qed

lemma chunk_text_returns:
  assumes "int (length (split t)) \<le> chunk_size cfg \<or>
    (chunk_overlap cfg \<le> 0 \<and> 0 < chunk_size cfg)"
  shows "\<exists>cs. chunk_text cfg t cid = Some cs"
  using assms chunk_loop_returns [of cfg "split t" cid 0 "[]"]
  by (auto simp: chunk_text_def Let_def)

lemma chunk_text_diverges:
  assumes "0 < chunk_overlap cfg" and "chunk_overlap cfg < chunk_size cfg"
    and "chunk_size cfg < int (length (split t))"
  shows "chunk_text cfg t cid = None"
proof (cases "chunk_text cfg t cid")
  case None
  then show ?thesis .
next
  case (Some r)
  with assms have "chunk_loop cfg (split t) cid 0 [] = Some r"
    by (simp add: chunk_text_def)
  from chunk_loop_stuck [OF this] assms show ?thesis by simp
qed

lemma split_aux_blank: "list_all is_space t \<Longrightarrow> split_aux [] t = []"
  by (induction t) auto

lemma strip_empty_blank:
  assumes "strip t = []"
  shows "list_all is_space t"
proof -
  let ?d = "dropWhile is_space t"
  from assms have "dropWhile is_space (rev ?d) = []"
    by (simp add: strip_def)
  then have all: "\<forall>x \<in> set ?d. is_space x"
    by simp
  have "?d = []"
  proof (rule ccontr)
    assume "?d \<noteq> []"
    then have "\<not> is_space (hd ?d)" by (rule hd_dropWhile)
    moreover have "hd ?d \<in> set ?d" using \<open>?d \<noteq> []\<close> by simp
    ultimately show False using all by blast
  qed
  then show ?thesis by (simp add: list_all_iff)
qed

lemma strip_empty_split: "strip t = [] \<Longrightarrow> split t = []"
  by (simp add: split_def split_aux_blank strip_empty_blank)

lemma chunk_text_streaming_diverges:
  assumes "0 < chunk_overlap cfg" and "chunk_overlap cfg < chunk_size cfg"
    and "chunk_size cfg < int (length (split t))"
  shows "chunk_text_streaming cfg t cid = None"
proof -
  from assms have "split t \<noteq> []" by auto
  then have "strip t \<noteq> []" using strip_empty_split by blast
  then show ?thesis
    using assms by (simp add: chunk_text_streaming_def chunk_text_diverges)
qed

text \<open>
  C1. With the shipped options (1000 words a chunk, 200 words of overlap) a text of 1000
  words gives the one chunk of words 0 to 1000, as the claim says. For a text of 1001
  words the claim promises two chunks, the second from word 800; the loop appends the
  windows from 0, 800 and 801, then the window from 801 again and again, and never
  returns.
\<close>

theorem chunk_text_1000_and_1001_words:
  "chunk_text shipped (sample_text 1000) 0
     = Some [new_chunk 0 (sample_text 1000) 0 1000] \<and>
   chunk_text shipped (sample_text 1001) 0 = None"
proof -
  have "chunk_text shipped (sample_text 1000) 0
      = Some [new_chunk 0 (sample_text 1000) 0 (int (length (split (sample_text 1000))))]"
    by (rule chunk_text_single)
      (simp add: split_sample_text shipped_def CHUNK_SIZE_def)
  moreover have "chunk_text shipped (sample_text 1001) 0 = None"
    by (rule chunk_text_diverges)
      (simp_all add: split_sample_text shipped_def CHUNK_SIZE_def CHUNK_OVERLAP_def)
  ultimately show ?thesis by (simp add: split_sample_text)
qed

text \<open>
  C2. The claim is that chunking terminates whenever the overlap is smaller than the
  chunk size. In the code, with a positive overlap smaller than the chunk size, every
  text of more words than the chunk size keeps both \<open>chunk_text\<close> and the archived
  \<open>chunk_text_streaming\<close> in their loop for ever: after a window ends at the last word,
  \<open>start\<close> is set \<open>chunk_overlap\<close> words before the end, which is never at or past it.
\<close>

theorem chunking_never_returns:
  assumes "0 < chunk_overlap cfg" and "chunk_overlap cfg < chunk_size cfg"
    and "chunk_size cfg < int (length (split t))"
  shows "chunk_text cfg t cid = None \<and> chunk_text_streaming cfg t cid = None"
  using assms by (simp add: chunk_text_diverges chunk_text_streaming_diverges)

theorem chunking_never_returns_witness:
  "0 < chunk_overlap shipped \<and> chunk_overlap shipped < chunk_size shipped \<and>
   chunk_size shipped < int (length (split (sample_text 1200))) \<and>
   chunk_text shipped (sample_text 1200) 7 = None \<and>
   chunk_text_streaming shipped (sample_text 1200) 7 = None"
proof -
  have h: "0 < chunk_overlap shipped" "chunk_overlap shipped < chunk_size shipped"
    "chunk_size shipped < int (length (split (sample_text 1200)))"
    by (simp_all add: split_sample_text shipped_def CHUNK_SIZE_def CHUNK_OVERLAP_def)
  with chunking_never_returns [OF h, of 7] show ?thesis by simp
qed

section \<open>Pages and chunk identifiers of a document\<close>




lemma stamp_fields [simp]:
  "page_number (stamp d p c) = Some (pg_number p)"
  "chunk_id (stamp d p c) = chunk_id c"
  "document_id (stamp d p c) = Some d"
  "text_val (stamp d p c) = text_val c"
  "embedding (stamp d p c) = embedding c"
  by (simp_all add: stamp_def)




lemma chunk_loop_ids:
  assumes ret: "chunk_loop cfg words cid start chunks = Some r"
  shows "map chunk_id chunks = map (\<lambda>i. Some (cid + int i)) [0..<length chunks] \<longrightarrow>
         map chunk_id r = map (\<lambda>i. Some (cid + int i)) [0..<length r]"
proof (rule chunk_loop.raw_induct
    [where P = "\<lambda>cfg words cid start chunks r.
        map chunk_id chunks = map (\<lambda>i. Some (cid + int i)) [0..<length chunks] \<longrightarrow>
         map chunk_id r = map (\<lambda>i. Some (cid + int i)) [0..<length r]", OF _ ret], goal_cases)
  case (1 f cfg words cid start chunks r)
  show ?case
  proof
    assume inv: "map chunk_id chunks = map (\<lambda>i. Some (cid + int i)) [0..<length chunks]"
    let ?e = "min (start + chunk_size cfg) (int (length words))"
    let ?ch = "chunks @ [new_chunk (cid + int (length chunks)) (join (py_slice words start ?e)) start ?e]"
    have inv': "map chunk_id ?ch = map (\<lambda>i. Some (cid + int i)) [0..<length ?ch]"
      using inv by (simp add: new_chunk_def)
    show "map chunk_id r = map (\<lambda>i. Some (cid + int i)) [0..<length r]"
    proof (cases "start < int (length words)")
      case False
      with 1(2) inv show ?thesis by simp
    next
      case True
      show ?thesis
      proof (cases "?e - chunk_overlap cfg \<ge> int (length words)")
        case True
        with 1(2) \<open>start < int (length words)\<close> have "r = ?ch" by (simp add: Let_def)
        with inv' show ?thesis by simp
      next
        case False
        with 1(2) \<open>start < int (length words)\<close>
        have "f cfg words cid (?e - chunk_overlap cfg) ?ch = Some r" by (simp add: Let_def)
        from 1(1) [OF this] inv' show ?thesis by blast
      qed
    qed
  qed
qed

lemma chunk_text_ids:
  "chunk_text cfg t cid = Some cs \<Longrightarrow>
   map chunk_id cs = map (\<lambda>i. Some (cid + int i)) [0..<length cs]"
  using chunk_loop_ids [of cfg "split t" cid 0 "[]" cs]
  by (auto simp: chunk_text_def Let_def new_chunk_def split: if_splits)

lemma upt_split_map:
  "map f [0..<a + b] = map f [0..<a] @ map (\<lambda>i. f (a + i)) [0..<b]"
proof -
  have "[a..<a + b] = map (\<lambda>i. a + i) [0..<b]"
    by (induction b) simp_all
  moreover have "[0..<a + b] = [0..<a] @ [a..<a + b]"
    by (rule upt_add_eq_append) simp
  ultimately have "map f [0..<a + b] = map f ([0..<a] @ map (\<lambda>i. a + i) [0..<b])"
    by (simp only:)
  then show ?thesis by (simp add: o_def)
qed

lemma process_pages_ids:
  "process_pages cfg d n pages = Some cs \<Longrightarrow>
   map chunk_id cs = map (\<lambda>i. Some (n + int i)) [0..<length cs]"
proof (induction pages arbitrary: n cs)
  case Nil
  then show ?case by simp
next
  case (Cons p ps)
  from Cons.prems obtain pcs rest where
    pcs: "chunk_text cfg (pg_text p) n = Some pcs"
    and rest: "process_pages cfg d (n + int (length pcs)) ps = Some rest"
    and cs: "cs = map (stamp d p) pcs @ rest"
    by (auto split: option.splits)
  have "map chunk_id (map (stamp d p) pcs) = map chunk_id pcs"
    by (induction pcs) simp_all
  then have a: "map chunk_id (map (stamp d p) pcs) = map (\<lambda>i. Some (n + int i)) [0..<length pcs]"
    by (simp only: chunk_text_ids [OF pcs])
  have b: "map chunk_id rest = map (\<lambda>i. Some (n + int (length pcs + i))) [0..<length rest]"
    by (simp only: Cons.IH [OF rest] of_nat_add add.assoc)
  have "map chunk_id cs = map chunk_id (map (stamp d p) pcs) @ map chunk_id rest"
    unfolding cs by (rule map_append)
  also have "\<dots> = map (\<lambda>i. Some (n + int i)) [0..<length pcs + length rest]"
    unfolding a b by (rule upt_split_map [symmetric])
  also have "length pcs + length rest = length cs"
    unfolding cs by simp
  finally show ?case .
qed

lemma process_pdf_ids:
  "process_pdf cfg ua pdf d = Some cs \<Longrightarrow>
   map chunk_id cs = map (\<lambda>i. Some (int i)) [0..<length cs]"
  using process_pages_ids [of cfg d 0 "extract_text_from_pdf ua pdf" cs]
  by (auto simp: process_pdf_def Let_def split: if_splits)

section \<open>Blank pages\<close>

lemmas eval_text = clean_text_page_def clean_text_def re_sub_special_def kept_def
  is_word_char_def is_space_def is_basic_punct_def split_def strip_def


lemma blank_pages_clean:
  "clean_text ua [97, 32, 98] = [97, 32, 98]" "clean_text ua [32, 10] = []"
  "clean_text ua [99] = [99]"
  by (simp_all add: eval_text)


section \<open>The page-by-page processor: failing pages and chunk identifiers\<close>

lemma bad_pages_clean: "clean_text ua [97] = [97]" "clean_text ua [98] = [98]"
  by (simp_all add: eval_text)

lemma page_data_all:
  "\<forall>t \<in> set ts. embed_one t \<noteq> [] \<Longrightarrow>
   page_data embed_one d n w h idx ts =
     map (\<lambda>i. page_chunk_data d n w h (idx + int i) (ts ! i) (embed_one (ts ! i))) [0..<length ts]"
proof (induction ts arbitrary: idx)
  case Nil
  then show ?case by simp
next
  case (Cons t ts)
  have shift: "[0..<length (t # ts)] = 0 # map Suc [0..<length ts]"
    by (simp add: upt_conv_Cons map_Suc_upt del: upt_Suc)
  from Cons have IH: "page_data embed_one d n w h (idx + 1) ts =
     map (\<lambda>i. page_chunk_data d n w h (idx + 1 + int i) (ts ! i) (embed_one (ts ! i))) [0..<length ts]"
    by simp
  from Cons.prems have "embed_one t \<noteq> []" by simp
  then show ?case
    unfolding shift by (simp add: IH Let_def o_def add.assoc del: upt_Suc)
qed

lemma page_data_page_number:
  "c \<in> set (page_data embed_one d n w h idx ts) \<Longrightarrow> page_number c = Some (n + 1)"
  by (induction ts arbitrary: idx) (auto simp: Let_def page_chunk_data_def split: if_splits)

lemma page_by_page_page_number:
  "c \<in> set (page_by_page ua st eo d n ps) \<Longrightarrow>
   \<exists>i < length ps. page_number c = Some (n + int i + 1)"
proof (induction ua st eo d n ps rule: page_by_page.induct)
  case (1 ua st eo d n)
  then show ?case by simp
next
  case (2 ua st eo d n ps)
  then obtain i where "i < length ps" "page_number c = Some (n + 1 + int i + 1)" by auto
  then show ?case by (intro exI [of _ "Suc i"]) simp
next
  case (3 ua st eo d n raw w h ps)
  from "3.prems" consider
    "c \<in> set (page_data eo d n w h 0 (chunk_text_langchain st (clean_text_page ua raw)))"
    | "c \<in> set (page_by_page ua st eo d (n + 1) ps)"
    by (auto simp: Let_def split: if_splits)
  then show ?case
  proof cases
    case 1
    then have "page_number c = Some (n + 1)" by (rule page_data_page_number)
    then show ?thesis by (intro exI [of _ 0]) simp
  next
    case 2
    with "3.IH" obtain i where "i < length ps" "page_number c = Some (n + 1 + int i + 1)" by auto
    then show ?thesis by (intro exI [of _ "Suc i"]) simp
  qed
qed

lemma page_by_page_failed_page:
  "k < length ps \<Longrightarrow>
   page_by_page ua st eo d n (ps[k := PageError]) =
     filter (\<lambda>c. page_number c \<noteq> Some (n + int k + 1)) (page_by_page ua st eo d n ps)"
proof (induction ua st eo d n ps arbitrary: k rule: page_by_page.induct)
  case (1 ua st eo d n)
  then show ?case by simp
next
  case (2 ua st eo d n ps)
  show ?case
  proof (cases k)
    case 0
    have "\<forall>c \<in> set (page_by_page ua st eo d (n + 1) ps). page_number c \<noteq> Some (n + 1)"
      using page_by_page_page_number [of _ ua st eo d "n + 1" ps] by fastforce
    then show ?thesis using 0 by (simp add: filter_id_conv)
  next
    case (Suc j)
    with 2 show ?thesis by (simp add: add.assoc add.commute)
  qed
next
  case (3 ua st eo d n raw w h ps)
  let ?own = "if strip (clean_text_page ua raw) \<noteq> []
       then page_data eo d n w h 0 (chunk_text_langchain st (clean_text_page ua raw)) else []"
  have own: "\<forall>c \<in> set ?own. page_number c = Some (n + 1)"
    using page_data_page_number by (auto split: if_splits)
  show ?case
  proof (cases k)
    case 0
    have "\<forall>c \<in> set (page_by_page ua st eo d (n + 1) ps). page_number c \<noteq> Some (n + 1)"
      using page_by_page_page_number [of _ ua st eo d "n + 1" ps] by fastforce
    moreover have "filter (\<lambda>c. page_number c \<noteq> Some (n + 1)) ?own = []"
      using own by (simp add: filter_empty_conv)
    ultimately show ?thesis using 0 by (simp add: Let_def filter_id_conv)
  next
    case (Suc j)
    have "filter (\<lambda>c. page_number c \<noteq> Some (n + int (Suc j) + 1)) ?own = ?own"
      using own by (simp add: filter_id_conv)
    moreover from 3 Suc have "page_by_page ua st eo d (n + 1) (ps[j := PageError]) =
      filter (\<lambda>c. page_number c \<noteq> Some (n + 1 + int j + 1)) (page_by_page ua st eo d (n + 1) ps)"
      by simp
    ultimately show ?thesis using Suc by (simp add: Let_def add.assoc add.commute)
  qed
qed

text \<open>
  C3. The claim is that a page that cannot be read costs only that page. The
  page-by-page processor behaves so: it produces the chunks of pages 1 and 3 of a
  document whose page 2 fails (and \<open>page_by_page_failed_page\<close> shows it for every
  document). \<open>PDFProcessor.extract_text_from_pdf\<close> has a single handler around the
  whole loop: for the same document it returns no page at all, and \<open>process_pdf\<close>
  no chunk.
\<close>

theorem unreadable_page_loses_all_pages:
  "extract_text_from_pdf ua (Document bad_pages) = [] \<and>
   process_pdf cfg ua (Document bad_pages) d = Some [] \<and>
   map page_number (process_pdf_page_by_page ua split_whole embed_unit True (Document bad_pages) d)
     = [Some 1, Some 3]"
proof -
  have "extract_text_from_pdf ua (Document bad_pages) = []"
    by (simp add: extract_text_from_pdf_def bad_pages_def)
  moreover have "map page_number
      (process_pdf_page_by_page ua split_whole embed_unit True (Document bad_pages) d)
     = [Some 1, Some 3]"
    by (simp add: process_pdf_page_by_page_def bad_pages_def clean_text_page_def bad_pages_clean
        strip_def is_space_def chunk_text_langchain_def split_whole_def embed_unit_def
        page_chunk_data_def)
  ultimately show ?thesis by (simp add: process_pdf_def)
qed

text \<open>
  C6. The claim is that chunk ids are strictly increasing and unique within a document.
  \<open>PDFProcessor.process_pdf\<close> numbers the chunks 0, 1, 2, ... with a running counter
  (\<open>process_pdf_ids\<close>). The page-by-page processor computes
  \<open>page_num * 1000 + chunk_idx\<close>, commented as a unique chunk id: whenever the
  splitter cuts the first page into more than 1000 chunks, each of which gets an
  embedding, the chunk with index 1000 of page 1 and the first chunk of page 2, which
  comes later, both get the id 1000.
\<close>

theorem page_by_page_chunk_id_collision:
  assumes text1: "strip (clean_text_page ua raw1) \<noteq> []"
    and text2: "strip (clean_text_page ua raw2) \<noteq> []"
    and cs1: "chunk_text_langchain split_text (clean_text_page ua raw1) = cs1"
    and many: "1000 < length cs1"
    and cs2: "chunk_text_langchain split_text (clean_text_page ua raw2) = c2 # cs2"
    and emb: "\<forall>t. embed_one t \<noteq> []"
    and rs: "rs = process_pdf_page_by_page ua split_text embed_one True
        (Document [PageOk raw1 w1 h1, PageOk raw2 w2 h2]) d"
  shows "length cs1 < length rs \<and>
    chunk_id (rs ! 1000) = Some 1000 \<and> page_number (rs ! 1000) = Some 1 \<and>
    chunk_id (rs ! length cs1) = Some 1000 \<and> page_number (rs ! length cs1) = Some 2"
proof -
  let ?g1 = "\<lambda>i. page_chunk_data d 0 w1 h1 (0 + int i) (cs1 ! i) (embed_one (cs1 ! i))"
  let ?g2 = "\<lambda>i. page_chunk_data d (0 + 1) w2 h2 (0 + int i) ((c2 # cs2) ! i)
      (embed_one ((c2 # cs2) ! i))"
  have p1: "page_data embed_one d 0 w1 h1 0 cs1 = map ?g1 [0..<length cs1]"
    using emb by (intro page_data_all) simp
  have p2: "page_data embed_one d (0 + 1) w2 h2 0 (c2 # cs2) = map ?g2 [0..<length (c2 # cs2)]"
    using emb by (intro page_data_all) simp
  have eq: "rs = map ?g1 [0..<length cs1] @ map ?g2 [0..<length (c2 # cs2)]"
    unfolding rs using text1 text2
    by (simp only: process_pdf_page_by_page_def page_by_page.simps Let_def cs1 cs2 p1 p2
        pdf_src.case if_True if_False not_not simp_thms append_Nil2)
  have a: "rs ! 1000 = ?g1 1000"
    using many by (simp add: eq nth_append)
  have b: "rs ! length cs1 = ?g2 0"
    by (simp add: eq nth_append upt_conv_Cons del: upt_Suc)
  have l: "length cs1 < length rs"
    by (simp add: eq)
  show ?thesis
    by (simp add: a b l page_chunk_data_def)
qed

theorem page_by_page_chunk_id_collision_witness:
  "1000 < length (chunk_text_langchain split_1001 (clean_text_page ascii_only [97])) \<and>
   chunk_id (process_pdf_page_by_page ascii_only split_1001 embed_unit True
       (Document two_pages) doc_d ! 1000) = Some 1000 \<and>
   page_number (process_pdf_page_by_page ascii_only split_1001 embed_unit True
       (Document two_pages) doc_d ! 1000) = Some 1 \<and>
   chunk_id (process_pdf_page_by_page ascii_only split_1001 embed_unit True
       (Document two_pages) doc_d ! 1001) = Some 1000 \<and>
   page_number (process_pdf_page_by_page ascii_only split_1001 embed_unit True
       (Document two_pages) doc_d ! 1001) = Some 2"
proof -
  have t1: "strip (clean_text_page ascii_only [97]) \<noteq> []"
    and t2: "strip (clean_text_page ascii_only [98]) \<noteq> []"
    by (simp_all add: clean_text_page_def bad_pages_clean strip_def is_space_def)
  have c1: "chunk_text_langchain split_1001 (clean_text_page ascii_only [97])
      = replicate 1001 [97]"
    and c2: "chunk_text_langchain split_1001 (clean_text_page ascii_only [98]) = [98] # []"
    by (simp_all add: chunk_text_langchain_def split_1001_def clean_text_page_def
        bad_pages_clean)
  have many: "1000 < length (replicate 1001 [97::nat])"
    by simp
  have emb: "\<forall>t. embed_unit t \<noteq> []"
    by (simp add: embed_unit_def)
  have rs: "process_pdf_page_by_page ascii_only split_1001 embed_unit True
      (Document two_pages) doc_d =
    process_pdf_page_by_page ascii_only split_1001 embed_unit True
      (Document [PageOk [97] 612 792, PageOk [98] 612 792]) doc_d"
    by (simp add: two_pages_def)
  from page_by_page_chunk_id_collision [OF t1 t2 c1 many c2 emb rs] c1
  show ?thesis by simp
qed

section \<open>Embedding in batches: order, omissions and warnings\<close>

lemma attach_eq:
  "attach es j cs acc warned =
     (acc @ map (\<lambda>(c, e). with_embedding c e) (zip cs (drop j es)),
      warned @ map chunk_id (drop (length es - j) cs))"
proof (induction cs arbitrary: j acc warned)
  case Nil
  then show ?case by simp
next
  case (Cons c cs)
  show ?case
  proof (cases "j < length es")
    case True
    then have d: "drop j es = es ! j # drop (Suc j) es"
      by (simp add: Cons_nth_drop_Suc)
    from True have l: "length es - j = Suc (length es - Suc j)" by simp
    show ?thesis
      using True by (simp add: Cons.IH d l with_embedding_def)
  next
    case False
    then show ?thesis by (simp add: Cons.IH)
  qed
qed

lemma batch_texts_Some:
  "list_all (\<lambda>c. text_val c \<noteq> None) b \<Longrightarrow> batch_texts b = Some (texts_of b)"
  by (induction b) (auto simp: texts_of_def)

lemma embed_batches_eq:
  "list_all (list_all (\<lambda>c. text_val c \<noteq> None)) bs \<Longrightarrow>
   embed_batches gen_emb bs acc warned =
     (Some (acc @ concat (map (batch_out gen_emb) bs)),
      warned @ concat (map (batch_warned gen_emb) bs))"
  by (induction bs arbitrary: acc warned)
    (simp_all add: batch_texts_Some attach_eq batch_out_def batch_warned_def)


lemma embed_batches_texts:
  "embed_batches gen_emb bs acc warned = (Some out, w) \<Longrightarrow>
   list_all (list_all (\<lambda>c. text_val c \<noteq> None)) bs"
proof (induction bs arbitrary: acc warned)
  case Nil
  then show ?case by simp
next
  case (Cons b bs)
  from Cons.prems obtain texts where t: "batch_texts b = Some texts"
    by (auto split: option.splits)
  have "list_all (\<lambda>c. text_val c \<noteq> None) b"
    using t by (induction b arbitrary: texts) (auto split: option.splits)
  moreover from Cons.prems t obtain acc' warned' where
    "embed_batches gen_emb bs acc' warned' = (Some out, w)"
    by (auto split: prod.splits)
  then have "list_all (list_all (\<lambda>c. text_val c \<noteq> None)) bs" by (rule Cons.IH)
  ultimately show ?case by simp
qed

lemma clear_with_embedding [simp]: "clear_embedding (with_embedding c e) = clear_embedding c"
  by (simp add: clear_embedding_def with_embedding_def)

lemma batch_out_clear:
  "map clear_embedding (batch_out gen_emb b) =
   take (length (gen_emb (texts_of b))) (map clear_embedding b)"
proof -
  have "map clear_embedding (map (\<lambda>(c, e). with_embedding c e) (zip b es)) =
      take (length es) (map clear_embedding b)" for es
    by (induction b arbitrary: es) (auto simp: take_Cons' split: list.splits; case_tac es; simp)+
  then show ?thesis by (simp add: batch_out_def)
qed

lemma batch_out_subseq:
  "subseq (map clear_embedding (batch_out gen_emb b)) (map clear_embedding b)"
  unfolding batch_out_clear
  by (metis append_take_drop_id prefix_def prefix_imp_subseq)

lemma batch_out_length: "length (batch_out gen_emb b) \<le> length b"
  by (simp add: batch_out_def)

lemma batch_out_embedded: "list_all (\<lambda>c. embedding c \<noteq> None) (batch_out gen_emb b)"
  by (auto simp: batch_out_def list_all_iff with_embedding_def)

lemma concat_batch_out:
  "length (concat (map (batch_out gen_emb) bs)) \<le> length (concat bs) \<and>
   subseq (map clear_embedding (concat (map (batch_out gen_emb) bs)))
     (map clear_embedding (concat bs)) \<and>
   list_all (\<lambda>c. embedding c \<noteq> None) (concat (map (batch_out gen_emb) bs))"
proof (induction bs)
  case Nil
  then show ?case by simp
next
  case (Cons b bs)
  have "length (batch_out gen_emb b) \<le> length b" by (rule batch_out_length)
  moreover have "subseq (map clear_embedding (batch_out gen_emb b)) (map clear_embedding b)"
    by (rule batch_out_subseq)
  moreover have "list_all (\<lambda>c. embedding c \<noteq> None) (batch_out gen_emb b)"
    by (rule batch_out_embedded)
  ultimately show ?case
    using Cons by (simp add: list_emb_append_mono)
qed

lemma concat_batches: "0 < n \<Longrightarrow> concat (batches n xs) = xs"
proof (induction n xs rule: batches.induct)
  case (1 n xs)
  show ?case
  proof (cases "xs = []")
    case True
    then show ?thesis by (simp add: batches.simps)
  next
    case False
    with 1 have "concat (batches n (drop n xs)) = drop n xs" by simp
    with False 1(2) show ?thesis by (subst batches.simps) simp
  qed
qed

lemma py_batches_concat: "py_batches n xs = Some bs \<Longrightarrow> bs = [] \<or> concat bs = xs"
  by (auto simp: py_batches_def concat_batches split: if_splits)

text \<open>
  C4, as amended. Batched embedding returns at most as many chunks as it was given, in
  the order given, each with the vector the generator returned for it, whatever the
  length of that vector. When the batch size is positive and every chunk has a text,
  each batch keeps its first chunks, as many as the generator returned vectors for it,
  and logs one warning with the chunk id for each chunk after them.
\<close>

theorem embedding_batches_keep_order:
  assumes "generate_embeddings_in_batches gen_emb n chunks = (out, warned)"
  shows "length out \<le> length chunks \<and>
    subseq (map clear_embedding out) (map clear_embedding chunks) \<and>
    list_all (\<lambda>c. embedding c \<noteq> None) out \<and>
    (0 < n \<and> list_all (\<lambda>c. text_val c \<noteq> None) chunks \<longrightarrow>
       out = concat (map (batch_out gen_emb) (batches (nat n) chunks)) \<and>
       warned = concat (map (batch_warned gen_emb) (batches (nat n) chunks)))"
proof -
  have general: "length out \<le> length chunks \<and>
    subseq (map clear_embedding out) (map clear_embedding chunks) \<and>
    list_all (\<lambda>c. embedding c \<noteq> None) out"
  proof (cases "out = []")
    case True
    then show ?thesis by simp
  next
    case False
    with assms obtain bs where bs: "py_batches n chunks = Some bs"
      and eb: "embed_batches gen_emb bs [] [] = (Some out, warned)"
      by (auto simp: generate_embeddings_in_batches_def split: option.splits prod.splits)
    from embed_batches_texts [OF eb] have "embed_batches gen_emb bs [] [] =
       (Some ([] @ concat (map (batch_out gen_emb) bs)), [] @ concat (map (batch_warned gen_emb) bs))"
      by (rule embed_batches_eq)
    with eb have out: "out = concat (map (batch_out gen_emb) bs)" by simp
    with False have "bs \<noteq> []" by auto
    with py_batches_concat [OF bs] have "concat bs = chunks" by simp
    with concat_batch_out [of gen_emb bs] out show ?thesis by simp
  qed
  have exact: "out = concat (map (batch_out gen_emb) (batches (nat n) chunks)) \<and>
       warned = concat (map (batch_warned gen_emb) (batches (nat n) chunks))"
    if n: "0 < n" and texts: "list_all (\<lambda>c. text_val c \<noteq> None) chunks"
  proof -
    let ?bs = "batches (nat n) chunks"
    from n have "concat ?bs = chunks" by (simp add: concat_batches)
    with texts have "list_all (list_all (\<lambda>c. text_val c \<noteq> None)) ?bs"
      by (metis (no_types, lifting) list_all_iff set_concat UN_I)
    then have "embed_batches gen_emb ?bs [] [] =
       (Some ([] @ concat (map (batch_out gen_emb) ?bs)), [] @ concat (map (batch_warned gen_emb) ?bs))"
      by (rule embed_batches_eq)
    with assms n show ?thesis
      by (simp add: generate_embeddings_in_batches_def py_batches_def)
  qed
  from general exact show ?thesis by blast
qed

lemma four_chunks_run:
  "generate_embeddings_in_batches gen_two 3 four_chunks =
     ([with_embedding (new_chunk 0 [97] 0 1) [Num 1], with_embedding (new_chunk 1 [98] 0 1) [Num 1],
       with_embedding (new_chunk 3 [100] 0 1) [Num 1]], [Some 2])"
  by (simp add: generate_embeddings_in_batches_def py_batches_def batches.simps four_chunks_def
      new_chunk_def gen_two_def gen_short_def with_embedding_def)

theorem embedding_batches_keep_order_witness:
  "generate_embeddings_in_batches gen_two 3 four_chunks =
     ([with_embedding (new_chunk 0 [97] 0 1) [Num 1], with_embedding (new_chunk 1 [98] 0 1) [Num 1],
       with_embedding (new_chunk 3 [100] 0 1) [Num 1]], [Some 2]) \<and>
   (0::int) < 3 \<and> list_all (\<lambda>c. text_val c \<noteq> None) four_chunks \<and>
   subseq (map clear_embedding
       [with_embedding (new_chunk 0 [97] 0 1) [Num 1], with_embedding (new_chunk 1 [98] 0 1) [Num 1],
        with_embedding (new_chunk 3 [100] 0 1) [Num 1]])
     (map clear_embedding four_chunks) \<and>
   [Some 2] = concat (map (batch_warned gen_two) (batches (nat 3) four_chunks))"
proof -
  have texts: "list_all (\<lambda>c. text_val c \<noteq> None) four_chunks"
    by (simp add: four_chunks_def new_chunk_def)
  have pos: "(0::int) < 3" by simp
  note t = embedding_batches_keep_order [OF four_chunks_run]
  from t have s: "subseq (map clear_embedding
       [with_embedding (new_chunk 0 [97] 0 1) [Num 1], with_embedding (new_chunk 1 [98] 0 1) [Num 1],
        with_embedding (new_chunk 3 [100] 0 1) [Num 1]])
     (map clear_embedding four_chunks)"
    by (elim conjE)
  from t pos texts have w: "[Some 2] = concat (map (batch_warned gen_two) (batches (nat 3) four_chunks))"
    by (elim conjE impE) (rule conjI)
  from four_chunks_run pos texts s w show ?thesis
    by (intro conjI)
qed

text \<open>
  C4 as stated fails: with a generator that returns vectors of one number, the chunk
  returned by \<open>generate_embeddings_in_batches\<close> carries an embedding of length 1,
  which is neither of the two values of \<open>DIMENSION\<close>.
\<close>

theorem embedding_not_of_configured_dimension:
  "fst (generate_embeddings_in_batches gen_short 50 [new_chunk 0 [97] 0 1]) =
     [with_embedding (new_chunk 0 [97] 0 1) [Num 1]] \<and>
   embedding (with_embedding (new_chunk 0 [97] 0 1) [Num 1]) = Some [Num 1] \<and>
   length [Num 1] \<noteq> DIMENSION False \<and> length [Num 1] \<noteq> DIMENSION True"
  by (simp add: generate_embeddings_in_batches_def py_batches_def batches.simps
      new_chunk_def gen_short_def with_embedding_def DIMENSION_def)

section \<open>Creating the collection\<close>

lemma schema_field_names: "map field_name (schema_fields d) = expected_field_names"
  by (simp add: schema_fields_def expected_field_names_def)

lemma new_collection_absent:
  "collections srv name = None \<Longrightarrow>
   new_collection srv name fs =
     Some (srv\<lparr>collections := (collections srv)(name \<mapsto>
       \<lparr>coll_fields = fs, coll_rows = [], coll_indexed = False\<rparr>)\<rparr>)"
  by (simp add: new_collection_def)

lemma new_collection_other_schema:
  "collections srv name = Some c \<Longrightarrow> map field_name (coll_fields c) \<noteq> expected_field_names \<Longrightarrow>
   new_collection srv name (schema_fields d) = None"
  using schema_field_names [of d] by (auto simp: new_collection_def)

text \<open>
  C8. With a connection and a collection of the client's name already on the server,
  \<open>create_collection\<close> returns \<open>True\<close>, leaves a collection of that name whose field
  names are the expected ones, and leaves every other collection as it was. If the
  existing field names differed, the existing collection was dropped: creating the
  collection over it would have raised, the drop leaves no collection of the name, and
  the result is a new, empty collection with the client's schema. If they matched, it
  is the existing collection with its fields and entities.
\<close>

theorem create_collection_matches_schema:
  assumes "connected srv" and "collections srv (collection_name cl) = Some existing"
  shows "\<exists>cl' srv' c'.
     create_collection cl srv index_ok = (True, cl', srv') \<and>
     handle cl' = Some (collection_name cl) \<and>
     collections srv' (collection_name cl) = Some c' \<and>
     map field_name (coll_fields c') = expected_field_names \<and>
     (\<forall>n. n \<noteq> collection_name cl \<longrightarrow> collections srv' n = collections srv n) \<and>
     (if map field_name (coll_fields existing) \<noteq> expected_field_names
      then collections (drop_collection srv (collection_name cl)) (collection_name cl) = None \<and>
           new_collection srv (collection_name cl) (schema_fields (dimension cl)) = None \<and>
           coll_fields c' = schema_fields (dimension cl) \<and> coll_rows c' = []
      else coll_fields c' = coll_fields existing \<and> coll_rows c' = coll_rows existing)"
proof (cases "map field_name (coll_fields existing) \<noteq> expected_field_names")
  case True
  let ?name = "collection_name cl"
  let ?srv1 = "drop_collection srv ?name"
  have gone: "collections ?srv1 ?name = None"
    by (simp add: drop_collection_def)
  from new_collection_absent [OF gone]
  have made: "new_collection ?srv1 ?name (schema_fields (dimension cl)) =
     Some (?srv1\<lparr>collections := (collections ?srv1)(?name \<mapsto>
       \<lparr>coll_fields = schema_fields (dimension cl), coll_rows = [], coll_indexed = False\<rparr>)\<rparr>)" .
  have raise: "new_collection srv ?name (schema_fields (dimension cl)) = None"
    using assms(2) True by (rule new_collection_other_schema)
  let ?srv2 = "?srv1\<lparr>collections := (collections ?srv1)(?name \<mapsto>
       \<lparr>coll_fields = schema_fields (dimension cl), coll_rows = [], coll_indexed = False\<rparr>)\<rparr>"
  have run: "create_collection cl srv index_ok =
      (True, cl\<lparr>handle := Some ?name\<rparr>, create_index ?srv2 ?name index_ok)"
    using assms True by (simp add: create_collection_def Let_def made)
  have fin: "collections (create_index ?srv2 ?name index_ok) ?name =
      Some \<lparr>coll_fields = schema_fields (dimension cl), coll_rows = [], coll_indexed = index_ok\<rparr>"
    by (simp add: create_index_def)
  have frame: "\<forall>n. n \<noteq> ?name \<longrightarrow>
      collections (create_index ?srv2 ?name index_ok) n = collections srv n"
    by (simp add: create_index_def drop_collection_def)
  show ?thesis
    using True gone raise run fin frame by (simp add: schema_field_names)
next
  case False
  with assms show ?thesis
    by (auto simp: create_collection_def Let_def create_index_def)
qed

theorem create_collection_matches_schema_witness:
  "connected server_old \<and>
   collections server_old (collection_name client_new) = Some
     \<lparr>coll_fields =
           [\<lparr>field_name = ''id'', field_dtype = INT64, is_primary = True, auto_id = True\<rparr>,
            \<lparr>field_name = ''text'', field_dtype = VARCHAR 100, is_primary = False,
              auto_id = False\<rparr>],
         coll_rows = [long_doc], coll_indexed = True\<rparr> \<and>
   create_collection client_new server_old True =
     (True, client_ready,
      \<lparr>connected = True,
       collections = [COLLECTION_NAME \<mapsto>
         \<lparr>coll_fields = schema_fields (DIMENSION False), coll_rows = [], coll_indexed = True\<rparr>]\<rparr>) \<and>
   map field_name (schema_fields (DIMENSION False)) = expected_field_names \<and>
   new_collection server_old COLLECTION_NAME (schema_fields (DIMENSION False)) = None"
proof -
  have c: "connected server_old" by (simp add: server_old_def)
  have e: "collections server_old (collection_name client_new) = Some
     \<lparr>coll_fields =
           [\<lparr>field_name = ''id'', field_dtype = INT64, is_primary = True, auto_id = True\<rparr>,
            \<lparr>field_name = ''text'', field_dtype = VARCHAR 100, is_primary = False,
              auto_id = False\<rparr>],
         coll_rows = [long_doc], coll_indexed = True\<rparr>"
    by (simp add: server_old_def client_new_def)
  have run: "create_collection client_new server_old True =
     (True, client_ready,
      \<lparr>connected = True,
       collections = [COLLECTION_NAME \<mapsto>
         \<lparr>coll_fields = schema_fields (DIMENSION False), coll_rows = [], coll_indexed = True\<rparr>]\<rparr>)"
    by (simp add: create_collection_def Let_def create_index_def new_collection_def
        drop_collection_def server_old_def client_new_def client_ready_def
        expected_field_names_def)
  note t = create_collection_matches_schema [OF c e, of True]
  from t run have n: "map field_name (schema_fields (DIMENSION False)) = expected_field_names"
    by (auto simp: client_new_def)
  from t have r: "new_collection server_old COLLECTION_NAME (schema_fields (DIMENSION False)) = None"
    by (auto simp: client_new_def expected_field_names_def split: if_splits)
  from c e run n r show ?thesis by (intro conjI)
qed

section \<open>Inserting documents\<close>

lemma valid_documents_eq: "valid_documents docs = map entity_of (filter complete docs)"
proof (induction docs)
  case Nil
  then show ?case by simp
next
  case (Cons doc docs)
  show ?case
  proof (cases "complete doc")
    case True
    then obtain d pn ci t e where f: "document_id doc = Some d" "page_number doc = Some pn"
      "chunk_id doc = Some ci" "text_val doc = Some t" "embedding doc = Some e"
      by (auto simp: complete_def)
    have "(if length d > 100 then take 100 d else d) = take 100 d" by simp
    with f True Cons show ?thesis by (simp add: entity_of_def Let_def)
  next
    case False
    with Cons show ?thesis by (auto simp: complete_def split: option.splits)
  qed
qed

text \<open>
  C10, as amended. The entities handed to the store are those of the documents that
  have the five required keys, in order, each with its id cut to 100 characters and its
  text to \<open>MAX_TEXT_LENGTH\<close>; the others are skipped. Without a collection the call
  returns \<open>False\<close> for every input and leaves the server as it is. With one, the
  entities are appended to the collection exactly when the input is not empty, some
  document is complete and the store takes the entities; the call returns \<open>True\<close>
  exactly when the input is empty, or the entities are appended and the flush returns.
  So it returns \<open>False\<close> with the server unchanged when no document is complete or the
  insert raises, and \<open>False\<close> with the entities in the collection when only the flush
  raises.
\<close>

theorem insert_documents_truncates:
  "valid_documents docs = map entity_of (filter complete docs) \<and>
   (handle cl = None \<longrightarrow> insert_documents cl srv accepts flushes docs = (False, srv)) \<and>
   (\<forall>name. handle cl = Some name \<longrightarrow>
      (if docs \<noteq> [] \<and> filter complete docs \<noteq> [] \<and> connected srv \<and>
          accepts (valid_documents docs) \<and> collections srv name \<noteq> None
       then \<exists>c. collections srv name = Some c \<and>
              insert_documents cl srv accepts flushes docs =
                (flushes (valid_documents docs),
                 srv\<lparr>collections := (collections srv)(name \<mapsto>
                   c\<lparr>coll_rows := coll_rows c @ map entity_of (filter complete docs)\<rparr>)\<rparr>)
       else insert_documents cl srv accepts flushes docs = (docs = [], srv)))"
  by (auto simp: insert_documents_def Let_def collection_insert_def valid_documents_eq
      split: option.splits)

lemma entity_long_doc:
  "entity_of long_doc =
     \<lparr>chunk_id = Some 0, text_val = Some (replicate 8192 97), start_word = None,
      end_word = None, document_id = Some (replicate 100 100), page_number = Some 1,
      page_width = None, page_height = None, embedding = Some [Num 1]\<rparr>"
  by (simp add: entity_of_def long_doc_def MAX_TEXT_LENGTH_def)

theorem insert_documents_truncates_witness:
  "handle client_ready = Some COLLECTION_NAME \<and> handle client_new = None \<and>
   valid_documents [long_doc, new_chunk 1 [97] 0 1] = [entity_of long_doc] \<and>
   text_val (entity_of long_doc) = Some (replicate 8192 97) \<and>
   document_id (entity_of long_doc) = Some (replicate 100 100) \<and>
   insert_documents client_ready server_ready accept_all accept_all
       [long_doc, new_chunk 1 [97] 0 1] =
     (True, server_ready\<lparr>collections := (collections server_ready)(COLLECTION_NAME \<mapsto>
        \<lparr>coll_fields = schema_fields (DIMENSION False), coll_rows = [entity_of long_doc],
         coll_indexed = True\<rparr>)\<rparr>) \<and>
   insert_documents client_ready server_ready accept_all refuse_all
       [long_doc, new_chunk 1 [97] 0 1] =
     (False, server_ready\<lparr>collections := (collections server_ready)(COLLECTION_NAME \<mapsto>
        \<lparr>coll_fields = schema_fields (DIMENSION False), coll_rows = [entity_of long_doc],
         coll_indexed = True\<rparr>)\<rparr>) \<and>
   insert_documents client_ready server_ready accept_all accept_all [new_chunk 1 [97] 0 1] =
     (False, server_ready) \<and>
   insert_documents client_new server_ready accept_all accept_all [long_doc] =
     (False, server_ready)"
proof -
  have h: "handle client_ready = Some COLLECTION_NAME" "handle client_new = None"
    by (simp_all add: client_ready_def client_new_def)
  have c: "complete long_doc" "\<not> complete (new_chunk 1 [97] 0 1)"
    by (simp_all add: complete_def long_doc_def new_chunk_def)
  have s: "connected server_ready" "collections server_ready COLLECTION_NAME =
      Some \<lparr>coll_fields = schema_fields (DIMENSION False), coll_rows = [], coll_indexed = True\<rparr>"
    by (simp_all add: server_ready_def)
  note t = insert_documents_truncates [of _ _ server_ready]
  from t [of "[long_doc, new_chunk 1 [97] 0 1]" client_ready accept_all accept_all] c
  have v: "valid_documents [long_doc, new_chunk 1 [97] 0 1] = [entity_of long_doc]"
    by simp
  from t [of "[long_doc, new_chunk 1 [97] 0 1]" client_ready accept_all accept_all] h c s
  have a: "insert_documents client_ready server_ready accept_all accept_all
       [long_doc, new_chunk 1 [97] 0 1] =
     (True, server_ready\<lparr>collections := (collections server_ready)(COLLECTION_NAME \<mapsto>
        \<lparr>coll_fields = schema_fields (DIMENSION False), coll_rows = [entity_of long_doc],
         coll_indexed = True\<rparr>)\<rparr>)"
    by (simp add: accept_all_def)
  from t [of "[long_doc, new_chunk 1 [97] 0 1]" client_ready accept_all refuse_all] h c s
  have f: "insert_documents client_ready server_ready accept_all refuse_all
       [long_doc, new_chunk 1 [97] 0 1] =
     (False, server_ready\<lparr>collections := (collections server_ready)(COLLECTION_NAME \<mapsto>
        \<lparr>coll_fields = schema_fields (DIMENSION False), coll_rows = [entity_of long_doc],
         coll_indexed = True\<rparr>)\<rparr>)"
    by (simp add: accept_all_def refuse_all_def)
  from t [of "[new_chunk 1 [97] 0 1]" client_ready accept_all accept_all] h c
  have b: "insert_documents client_ready server_ready accept_all accept_all
      [new_chunk 1 [97] 0 1] = (False, server_ready)"
    by simp
  from t [of "[long_doc]" client_new accept_all accept_all] h
  have u: "insert_documents client_new server_ready accept_all accept_all [long_doc] =
      (False, server_ready)"
    by simp
  have e: "text_val (entity_of long_doc) = Some (replicate 8192 97)"
    "document_id (entity_of long_doc) = Some (replicate 100 100)"
    by (simp_all add: entity_long_doc)
  from h v e a f b u show ?thesis by (intro conjI)
qed

text \<open>
  C10 as stated fails: \<open>insert_documents\<close> returns \<open>False\<close> although a valid
  record remains, when the client has no collection yet, when the store refuses the
  entities, and when the flush raises after the insert.
\<close>

theorem insert_documents_false_with_valid_records:
  "valid_documents [long_doc] \<noteq> [] \<and>
   fst (insert_documents client_new server_ready accept_all accept_all [long_doc]) = False \<and>
   fst (insert_documents client_ready server_ready refuse_all accept_all [long_doc]) = False \<and>
   fst (insert_documents client_ready server_ready accept_all refuse_all [long_doc]) = False"
  by (simp add: insert_documents_def collection_insert_def client_new_def client_ready_def
      refuse_all_def accept_all_def server_ready_def valid_documents_eq complete_def
      long_doc_def)

section \<open>Storing a document: returning and the success flag\<close>

lemma process_pages_returns:
  assumes "(chunk_overlap cfg \<le> 0 \<and> 0 < chunk_size cfg) \<or>
    list_all (\<lambda>p. int (length (split (pg_text p))) \<le> chunk_size cfg) pages"
  shows "\<exists>cs. process_pages cfg d n pages = Some cs"
  using assms
proof (induction pages arbitrary: n)
  case Nil
  then show ?case by simp
next
  case (Cons p ps)
  then have "int (length (split (pg_text p))) \<le> chunk_size cfg \<or>
      (chunk_overlap cfg \<le> 0 \<and> 0 < chunk_size cfg)"
    by auto
  then obtain pcs where pcs: "chunk_text cfg (pg_text p) n = Some pcs"
    using chunk_text_returns by blast
  from Cons.prems have "(chunk_overlap cfg \<le> 0 \<and> 0 < chunk_size cfg) \<or>
      list_all (\<lambda>p. int (length (split (pg_text p))) \<le> chunk_size cfg) ps"
    by auto
  then obtain cs where "process_pages cfg d (n + int (length pcs)) ps = Some cs"
    using Cons.IH by blast
  with pcs show ?case by simp
qed

lemma process_pdf_returns:
  assumes "(chunk_overlap cfg \<le> 0 \<and> 0 < chunk_size cfg) \<or>
    list_all (\<lambda>p. int (length (split (pg_text p))) \<le> chunk_size cfg)
      (extract_text_from_pdf ua pdf)"
  shows "\<exists>cs. process_pdf cfg ua pdf d = Some cs"
  using process_pages_returns [OF assms, of d 0]
  by (simp add: process_pdf_def Let_def)

lemma process_pages_long_page:
  assumes "0 < chunk_overlap cfg" and "chunk_overlap cfg < chunk_size cfg"
    and "p \<in> set pages" and "chunk_size cfg < int (length (split (pg_text p)))"
  shows "process_pages cfg d n pages = None"
  using assms(3)
proof (induction pages arbitrary: n)
  case Nil
  then show ?case by simp
next
  case (Cons q qs)
  show ?case
  proof (cases "q = p")
    case True
    with assms have "chunk_text cfg (pg_text q) n = None"
      by (simp add: chunk_text_diverges)
    then show ?thesis by simp
  next
    case False
    with Cons.prems have "p \<in> set qs" by simp
    then have "process_pages cfg d m qs = None" for m by (rule Cons.IH)
    then show ?thesis by (simp split: option.splits)
  qed
qed

lemma clean_sample_text: "clean_text ua (sample_text n) = sample_text n"
  unfolding sample_text_def
  by (rule clean_text_fixed)
    (simp_all add: list_all_iff word_ok_def is_space_def kept_def is_word_char_def)

lemma long_page_extracted:
  "extract_text_from_pdf ua (Document long_page) =
     [\<lparr>pg_number = 1, pg_text = sample_text 1001, pg_width = 612, pg_height = 792\<rparr>]"
proof -
  have "split (sample_text 1001) \<noteq> []"
    by (simp add: split_sample_text)
  then have "strip (sample_text 1001) \<noteq> []"
    using strip_empty_split by blast
  then show ?thesis
    by (simp add: extract_text_from_pdf_def long_page_def clean_sample_text)
qed

text \<open>
  C5. The claim is that for every file \<open>store_pdf_with_progress\<close> returns, and
  returns \<open>True\<close> exactly when a chunk was stored. With a positive overlap smaller than
  the chunk size, for every file that exists and has an extracted page of more words
  than the chunk size, the call never returns: \<open>process_pdf\<close> is caught in the loop of
  \<open>chunk_text\<close> (see C1 and C2). For the other files \<open>store_pdf_flag_and_count\<close> shows
  what the call returns.
\<close>

theorem store_pdf_never_returns_on_long_page:
  assumes "0 < chunk_overlap cfg" and "chunk_overlap cfg < chunk_size cfg"
    and "path_exists"
    and "p \<in> set (extract_text_from_pdf ua pdf)"
    and "chunk_size cfg < int (length (split (pg_text p)))"
  shows "store_pdf_with_progress cfg ua gen_emb embed_one accepts flushes batch_size ebs
      fresh_id cl srv path_exists pdf doc_id_arg = None"
proof -
  from assms(4) have "extract_text_from_pdf ua pdf \<noteq> []" by auto
  moreover have "process_pages cfg d 0 (extract_text_from_pdf ua pdf) = None" for d
    using assms(1,2,4,5) by (rule process_pages_long_page)
  ultimately have "process_pdf cfg ua pdf d = None" for d
    by (simp add: process_pdf_def Let_def)
  with assms(3) show ?thesis
    by (simp add: store_pdf_with_progress_def Let_def)
qed

theorem store_pdf_never_returns_on_long_page_witness:
  "0 < chunk_overlap shipped \<and> chunk_overlap shipped < chunk_size shipped \<and>
   \<lparr>pg_number = 1, pg_text = sample_text 1001, pg_width = 612, pg_height = 792\<rparr>
     \<in> set (extract_text_from_pdf ascii_only (Document long_page)) \<and>
   chunk_size shipped < int (length (split (sample_text 1001))) \<and>
   store_pdf_with_progress shipped ascii_only gen_short embed_unit accept_all accept_all 100 50
     doc_d client_ready server_ready True (Document long_page) None = None"
proof -
  let ?p = "\<lparr>pg_number = 1, pg_text = sample_text 1001, pg_width = 612, pg_height = 792\<rparr>"
  have o: "0 < chunk_overlap shipped" "chunk_overlap shipped < chunk_size shipped"
    by (simp_all add: shipped_def CHUNK_SIZE_def CHUNK_OVERLAP_def)
  have t: "True" ..
  have m: "?p \<in> set (extract_text_from_pdf ascii_only (Document long_page))"
    by (simp add: long_page_extracted)
  have l: "chunk_size shipped < int (length (split (pg_text ?p)))"
    by (simp add: split_sample_text shipped_def CHUNK_SIZE_def)
  from store_pdf_never_returns_on_long_page [OF o t m l]
  have "store_pdf_with_progress shipped ascii_only gen_short embed_unit accept_all accept_all
     100 50 doc_d client_ready server_ready True (Document long_page) None = None" .
  with o m l show ?thesis by simp
qed

lemma insert_documents_rows:
  assumes "insert_documents cl srv accepts flushes docs = (ok, srv')" and "docs \<noteq> []"
  shows "row_count cl srv \<le> row_count cl srv' \<and>
    (ok \<longrightarrow> row_count cl srv < row_count cl srv') \<and>
    ((\<forall>es. flushes es) \<and> \<not> ok \<longrightarrow> srv' = srv)"
  using assms
  by (auto simp: insert_documents_def Let_def collection_insert_def row_count_def
      split: option.splits if_splits)

lemma store_batches_rows:
  "store_batches gen_emb embed_one accepts flushes ebs cl bs s f srv = (s', f', srv') \<Longrightarrow>
   s \<le> s' \<and> row_count cl srv \<le> row_count cl srv' \<and>
   (s < s' \<longrightarrow> row_count cl srv < row_count cl srv') \<and>
   ((\<forall>es. flushes es) \<and> row_count cl srv < row_count cl srv' \<longrightarrow> s < s')"
proof (induction bs arbitrary: s f srv)
  case Nil
  then show ?case by simp
next
  case (Cons batch rest)
  let ?cwe = "fst (generate_embeddings_in_batches gen_emb ebs batch)"
  let ?valid = "filter (\<lambda>c. validate_embedding embed_one
                             (case embedding c of None \<Rightarrow> [] | Some e \<Rightarrow> e)) ?cwe"
  show ?case
  proof (cases "?cwe = [] \<or> ?valid = []")
    case True
    with Cons.prems have "store_batches gen_emb embed_one accepts flushes ebs cl rest s
        (f + length batch) srv = (s', f', srv')"
      by (auto simp: Let_def split: if_splits)
    then show ?thesis by (rule Cons.IH)
  next
    case False
    obtain ok srv1 where ins: "insert_documents cl srv accepts flushes ?valid = (ok, srv1)"
      by (cases "insert_documents cl srv accepts flushes ?valid") auto
    from insert_documents_rows [OF ins] False
    have step: "row_count cl srv \<le> row_count cl srv1"
      "ok \<longrightarrow> row_count cl srv < row_count cl srv1"
      "(\<forall>es. flushes es) \<and> \<not> ok \<longrightarrow> srv1 = srv"
      by blast+
    show ?thesis
    proof (cases ok)
      case True
      with Cons.prems False ins have "store_batches gen_emb embed_one accepts flushes ebs cl
          rest (s + length ?valid) f srv1 = (s', f', srv')"
        by (simp add: Let_def)
      from Cons.IH [OF this] have ih: "s + length ?valid \<le> s'"
        "row_count cl srv1 \<le> row_count cl srv'" by simp_all
      from False have "0 < length ?valid" by simp
      with ih(1) have lt: "s < s'" by linarith
      from step(2) True ih(2) have rl: "row_count cl srv < row_count cl srv'" by linarith
      from lt rl show ?thesis by simp
    next
      case no: False
      with Cons.prems False ins have "store_batches gen_emb embed_one accepts flushes ebs cl
          rest s (f + length ?valid) srv1 = (s', f', srv')"
        by (simp add: Let_def)
      from Cons.IH [OF this] step no show ?thesis by auto
    qed
  qed
qed

lemma store_pdf_flag_and_count:
  assumes "(chunk_overlap cfg \<le> 0 \<and> 0 < chunk_size cfg) \<or>
    list_all (\<lambda>p. int (length (split (pg_text p))) \<le> chunk_size cfg)
      (extract_text_from_pdf ua pdf)"
  shows "\<exists>ok successful failed srv'.
     store_pdf_with_progress cfg ua gen_emb embed_one accepts flushes batch_size ebs fresh_id
       cl srv path_exists pdf doc_id_arg = Some (ok, successful, failed, srv') \<and>
     (ok \<longleftrightarrow> 0 < successful) \<and>
     (ok \<longrightarrow> row_count cl srv < row_count cl srv') \<and>
     ((\<forall>es. flushes es) \<and> row_count cl srv < row_count cl srv' \<longrightarrow> ok)"
proof (cases path_exists)
  case False
  then have "store_pdf_with_progress cfg ua gen_emb embed_one accepts flushes batch_size ebs
      fresh_id cl srv path_exists pdf doc_id_arg = Some (False, 0, 0, srv)"
    by (simp add: store_pdf_with_progress_def)
  then show ?thesis by auto
next
  case True
  let ?d = "case doc_id_arg of None \<Rightarrow> fresh_id | Some d \<Rightarrow> if d = [] then fresh_id else d"
  from assms obtain all_chunks where pp: "process_pdf cfg ua pdf ?d = Some all_chunks"
    using process_pdf_returns by blast
  show ?thesis
  proof (cases "all_chunks = []")
    case True
    with \<open>path_exists\<close> pp
    have "store_pdf_with_progress cfg ua gen_emb embed_one accepts flushes batch_size ebs
        fresh_id cl srv path_exists pdf doc_id_arg = Some (False, 0, 0, srv)"
      by (simp add: store_pdf_with_progress_def)
    then show ?thesis by auto
  next
    case False
    show ?thesis
    proof (cases "py_batches batch_size all_chunks")
      case None
      with \<open>path_exists\<close> pp False
      have "store_pdf_with_progress cfg ua gen_emb embed_one accepts flushes batch_size ebs
          fresh_id cl srv path_exists pdf doc_id_arg = Some (False, 0, 0, srv)"
        by (simp add: store_pdf_with_progress_def)
      then show ?thesis by auto
    next
      case (Some bs)
      obtain s f srv' where sb:
        "store_batches gen_emb embed_one accepts flushes ebs cl bs 0 0 srv = (s, f, srv')"
        by (cases "store_batches gen_emb embed_one accepts flushes ebs cl bs 0 0 srv") auto
      from store_batches_rows [OF sb]
      have rows: "0 < s \<longrightarrow> row_count cl srv < row_count cl srv'"
        "(\<forall>es. flushes es) \<and> row_count cl srv < row_count cl srv' \<longrightarrow> 0 < s"
        by blast+
      from \<open>path_exists\<close> pp False Some sb
      have "store_pdf_with_progress cfg ua gen_emb embed_one accepts flushes batch_size ebs
          fresh_id cl srv path_exists pdf doc_id_arg = Some (0 < s, s, f, srv')"
        by (auto simp: store_pdf_with_progress_def)
      with rows show ?thesis by simp
    qed
  qed
qed

lemma empty_pdf_run:
  "store_pdf_with_progress shipped ascii_only gen_short embed_unit accept_all accept_all 100 50
     doc_d client_ready server_ready True (Document []) None = Some (False, 0, 0, server_ready)"
  by (simp add: store_pdf_with_progress_def process_pdf_def extract_text_from_pdf_def)

lemma blank_pages_chunks:
  "process_pdf shipped ascii_only (Document blank_pages) doc_d =
      Some [stamp doc_d \<lparr>pg_number = 1, pg_text = [97, 32, 98], pg_width = 612, pg_height = 792\<rparr>
              (new_chunk 0 [97, 32, 98] 0 2),
            stamp doc_d \<lparr>pg_number = 3, pg_text = [99], pg_width = 612, pg_height = 792\<rparr>
              (new_chunk 1 [99] 0 1)]"
proof -
  have ex: "extract_text_from_pdf ascii_only (Document blank_pages) =
      [\<lparr>pg_number = 1, pg_text = [97, 32, 98], pg_width = 612, pg_height = 792\<rparr>,
       \<lparr>pg_number = 3, pg_text = [99], pg_width = 612, pg_height = 792\<rparr>]"
    by (simp add: extract_text_from_pdf_def blank_pages_def blank_pages_clean strip_def
        is_space_def)
  have words: "split [97, 32, 98] = [[97], [98]]" "split [99] = [[99]]"
    by (simp_all add: split_def is_space_def)
  show ?thesis
    by (simp add: process_pdf_def ex Let_def chunk_text_def words shipped_def CHUNK_SIZE_def)
qed

lemma blank_pages_run:
  "\<exists>srv'. store_pdf_with_progress shipped ascii_only gen_short embed_unit accept_all accept_all
     100 50 doc_d client_ready server_ready True (Document blank_pages) None
       = Some (True, 2, 0, srv')"
  by (simp add: store_pdf_with_progress_def blank_pages_chunks py_batches_def batches.simps
      generate_embeddings_in_batches_def stamp_def new_chunk_def gen_short_def
      validate_embedding_def get_embedding_dimension_def embed_unit_def
      insert_documents_def client_ready_def client_new_def collection_insert_def
      server_ready_def accept_all_def COLLECTION_NAME_def Let_def)

end
